theory Spec2Isabelle
  imports Main
begin

section \<open>JavaScript values used by the client\<close>

text \<open>
  A rejected promise or a thrown exception is a value of type \<open>error\<close>:
  \<open>Error msg\<close> is \<^verbatim>\<open>new Error(msg)\<close>, \<open>TypeError\<close> is what the engine
  throws when a property of \<^verbatim>\<open>undefined\<close> is read.  A fallible computation
  returns \<open>error + 'a\<close>, with \<open>Inl\<close> the error.
\<close>

datatype error = Error string | TypeError string

text \<open>How a synchronous callback ends: it returns, or it throws.\<close>

datatype completion = Returned | Threw error

text \<open>\<^verbatim>\<open>xs[i]\<close>: the element, or \<^verbatim>\<open>undefined\<close> (here \<open>None\<close>) out of range.\<close>

definition at_index :: "'a list \<Rightarrow> nat \<Rightarrow> 'a option" where
  "at_index xs i = (if i < length xs then Some (xs ! i) else None)"

text \<open>
  \<^verbatim>\<open>s.split(sep)\<close> for a one-character separator: the segments between the
  separators, in order; a string without separator is its own single segment, the empty
  string gives one empty segment.
\<close>

fun js_split :: "char \<Rightarrow> string \<Rightarrow> string list" where
  "js_split sep [] = [[]]"
| "js_split sep (c # cs) =
     (if c = sep then [] # js_split sep cs
      else (case js_split sep cs of [] \<Rightarrow> [[c]] | s # ss \<Rightarrow> (c # s) # ss))"

text \<open>\<^verbatim>\<open>x.endsWith(s)\<close>: the last \<open>length s\<close> characters of \<open>x\<close> are \<open>s\<close>.\<close>

definition endsWith :: "string \<Rightarrow> string \<Rightarrow> bool" where
  "endsWith x s = (length s \<le> length x \<and> drop (length x - length s) x = s)"

text \<open>
  A JavaScript \<^verbatim>\<open>Set\<close> keeps its elements in insertion order, each once:
  a list without duplicates.  \<^verbatim>\<open>add\<close> of a member changes nothing.
\<close>

definition set_add :: "'a \<Rightarrow> 'a list \<Rightarrow> 'a list" where
  "set_add x s = (if x \<in> set s then s else s @ [x])"

definition set_delete :: "'a \<Rightarrow> 'a list \<Rightarrow> 'a list" where
  "set_delete x s = removeAll x s"


section \<open>version.ts\<close>

text \<open>
  \<^verbatim>\<open>const [majorVersion, minorVersion] = packageJson.version.split(".")\<close>.
  The file \<^verbatim>\<open>package.json\<close> is not part of the sources, so the version string
  it holds is a parameter, \<open>packageVersion\<close>.  Destructuring an array that is too
  short binds \<^verbatim>\<open>undefined\<close>.
\<close>

definition majorVersion :: "string \<Rightarrow> string option" where
  "majorVersion packageVersion = at_index (js_split CHR ''.'' packageVersion) 0"

definition minorVersion :: "string \<Rightarrow> string option" where
  "minorVersion packageVersion = at_index (js_split CHR ''.'' packageVersion) 1"

definition isCompatible :: "string \<Rightarrow> string \<Rightarrow> bool" where
  "isCompatible packageVersion version =
     (let parts = js_split CHR ''.'' version;
          major = at_index parts 0;
          minor = at_index parts 1
      in major = majorVersion packageVersion \<and> minor = minorVersion packageVersion)"

text \<open>
  The specification's wording of the same check: the first two dot-separated segments
  of the two version strings are equal, segment by segment, as strings.
\<close>

definition isCompatible_spec :: "string \<Rightarrow> string \<Rightarrow> bool" where
  "isCompatible_spec packageVersion version =
     (take 2 (js_split CHR ''.'' version) = take 2 (js_split CHR ''.'' packageVersion))"


section \<open>event-handlers.ts\<close>

text \<open>
  A callback is a function object; the registry keys on its identity, so a callback is
  represented by a reference (a number) and what it does when called is looked up
  separately.  \<open>EventHandlers\<close> is the class's only field, the set \<^verbatim>\<open>#handlers\<close>.
\<close>

type_synonym handler = nat

type_synonym EventHandlers = "handler list"

definition new_EventHandlers :: EventHandlers where
  "new_EventHandlers = []"

definition addHandler :: "handler \<Rightarrow> EventHandlers \<Rightarrow> EventHandlers" where
  "addHandler h hs = set_add h hs"

definition removeHandler :: "handler \<Rightarrow> EventHandlers \<Rightarrow> EventHandlers" where
  "removeHandler h hs = set_delete h hs"

text \<open>
  \<^verbatim>\<open>try { body } catch {}\<close>: whatever the body did to the world stays, and the
  statement completes normally also when the body threw.
\<close>

definition try_catch :: "completion \<times> 'w \<Rightarrow> completion \<times> 'w" where
  "try_catch r = (case r of (Threw e, w) \<Rightarrow> (Returned, w) | (Returned, w) \<Rightarrow> (Returned, w))"

text \<open>
  \<^verbatim>\<open>for (const x of xs) body\<close>: the body runs for the elements in order; a body
  that throws ends the loop and the exception leaves it.
\<close>

fun for_of :: "'a list \<Rightarrow> ('a \<Rightarrow> 'w \<Rightarrow> completion \<times> 'w) \<Rightarrow> 'w \<Rightarrow> completion \<times> 'w" where
  "for_of [] body w = (Returned, w)"
| "for_of (x # xs) body w =
     (case body x w of
        (Threw e, w') \<Rightarrow> (Threw e, w')
      | (Returned, w') \<Rightarrow> for_of xs body w')"

text \<open>
  \<open>dispatch call hs payload w\<close> is the method for callbacks that leave the registry
  they are dispatched from alone: \<open>call h payload w\<close> is what calling the function
  object \<open>h\<close> with \<open>payload\<close> does in the world \<open>w\<close>, how it completes and the world
  it leaves, and the loop walks the handlers as they were when it began.  The method in
  full, with callbacks that add and remove handlers while the set is iterated, is
  \<open>dispatch_live\<close> below; the two agree when no callback edits the set.
\<close>

definition dispatch ::
  "(handler \<Rightarrow> 'p \<Rightarrow> 'w \<Rightarrow> completion \<times> 'w) \<Rightarrow> EventHandlers \<Rightarrow> 'p \<Rightarrow> 'w \<Rightarrow> completion \<times> 'w" where
  "dispatch call hs payload w =
     for_of hs (\<lambda>handler w'. try_catch (call handler payload w')) w"

text \<open>
  A registry as a program builds it: from \<^verbatim>\<open>new EventHandlers()\<close> by a sequence of
  \<open>addHandler\<close> and \<open>removeHandler\<close> calls.
\<close>

datatype registry_op = AddHandler handler | RemoveHandler handler

fun apply_registry_op :: "EventHandlers \<Rightarrow> registry_op \<Rightarrow> EventHandlers" where
  "apply_registry_op hs (AddHandler h) = addHandler h hs"
| "apply_registry_op hs (RemoveHandler h) = removeHandler h hs"

definition registry :: "registry_op list \<Rightarrow> EventHandlers" where
  "registry ops = foldl apply_registry_op new_EventHandlers ops"

text \<open>
  Counting calls: the world is a pair of the calls made so far and the callbacks' own
  world \<open>'u\<close>; \<open>invoke behaviour\<close> records the call and then lets the callback act.
\<close>

definition invoke ::
  "(handler \<Rightarrow> 'p \<Rightarrow> 'u \<Rightarrow> completion \<times> 'u) \<Rightarrow>
   handler \<Rightarrow> 'p \<Rightarrow> (handler \<times> 'p) list \<times> 'u \<Rightarrow> completion \<times> (handler \<times> 'p) list \<times> 'u" where
  "invoke behaviour h p w =
     (case behaviour h p (snd w) of (c, u') \<Rightarrow> (c, (fst w @ [(h, p)], u')))"

text \<open>
  The method in full.  A \<^verbatim>\<open>for...of\<close> over a \<^verbatim>\<open>Set\<close> walks the set itself, not
  a copy: the iterator keeps a position in the list of entries; \<^verbatim>\<open>delete\<close> empties
  an entry where it stands (\<open>None\<close>), \<^verbatim>\<open>add\<close> of a value that is not in the set
  appends an entry, and the loop ends when the position is past the last entry.  So a
  handler deleted before the loop reaches it is not called, and a handler added during
  the loop, also one deleted and added again, is called when the loop reaches its new
  entry.
\<close>

type_synonym live_set = "handler option list"

definition live_add :: "handler \<Rightarrow> live_set \<Rightarrow> live_set" where
  "live_add h es = (if Some h \<in> set es then es else es @ [Some h])"

definition live_delete :: "handler \<Rightarrow> live_set \<Rightarrow> live_set" where
  "live_delete h es = map (\<lambda>e. if e = Some h then None else e) es"

fun live_edit :: "live_set \<Rightarrow> registry_op \<Rightarrow> live_set" where
  "live_edit es (AddHandler h) = live_add h es"
| "live_edit es (RemoveHandler h) = live_delete h es"

definition live_contents :: "live_set \<Rightarrow> EventHandlers" where
  "live_contents es = map the (filter (\<lambda>e. e \<noteq> None) es)"

text \<open>
  A dispatch in progress: the entries of the set, the calls made so far, and the
  callbacks' own world.  \<open>behaviour h payload u\<close> is what the function object \<open>h\<close>
  does when called with \<open>payload\<close> in the world \<open>u\<close>: how it completes, which
  \<open>addHandler\<close> and \<open>removeHandler\<close> calls it makes on this registry, in order, and
  the world it leaves.
\<close>

record ('p, 'u) dispatching =
  entries :: live_set
  called :: "(handler \<times> 'p) list"
  world :: 'u

definition call_live ::
  "(handler \<Rightarrow> 'p \<Rightarrow> 'u \<Rightarrow> completion \<times> registry_op list \<times> 'u) \<Rightarrow>
   handler \<Rightarrow> 'p \<Rightarrow> ('p, 'u) dispatching \<Rightarrow> completion \<times> ('p, 'u) dispatching" where
  "call_live behaviour h p d =
     (case behaviour h p (world d) of
        (c, edits, u') \<Rightarrow>
          (c, \<lparr>entries = foldl live_edit (entries d) edits,
               called = called d @ [(h, p)], world = u'\<rparr>))"

text \<open>
  The loop from position \<open>i\<close>.  Callbacks can keep adding entries, so the loop need not
  end: the result \<open>None\<close> says that it runs forever.
\<close>

partial_function (option) for_of_live ::
  "(handler \<Rightarrow> ('p, 'u) dispatching \<Rightarrow> completion \<times> ('p, 'u) dispatching) \<Rightarrow> nat \<Rightarrow>
   ('p, 'u) dispatching \<Rightarrow> (completion \<times> ('p, 'u) dispatching) option" where
  "for_of_live body i d =
     (if i < length (entries d)
      then (case entries d ! i of
              None \<Rightarrow> for_of_live body (Suc i) d
            | Some h \<Rightarrow>
                (case body h d of
                   (Threw e, d') \<Rightarrow> Some (Threw e, d')
                 | (Returned, d') \<Rightarrow> for_of_live body (Suc i) d'))
      else Some (Returned, d))"

declare for_of_live.simps [code]

text \<open>
  \<open>dispatch_live behaviour hs payload u\<close>: the method called on the registry \<open>hs\<close>.
  It gives how the method completes, the registry it leaves, the calls it made and the
  world it leaves.
\<close>

definition dispatch_live ::
  "(handler \<Rightarrow> 'p \<Rightarrow> 'u \<Rightarrow> completion \<times> registry_op list \<times> 'u) \<Rightarrow>
   EventHandlers \<Rightarrow> 'p \<Rightarrow> 'u \<Rightarrow>
   (completion \<times> EventHandlers \<times> (handler \<times> 'p) list \<times> 'u) option" where
  "dispatch_live behaviour hs payload u =
     map_option (\<lambda>(c, d). (c, live_contents (entries d), called d, world d))
       (for_of_live (\<lambda>handler d. try_catch (call_live behaviour handler payload d)) 0
          \<lparr>entries = map Some hs, called = [], world = u\<rparr>)"

text \<open>
  Sample callbacks.  The first throws for handler 1 and adds the payload to a counter
  otherwise, and edits nothing.  In the second, handler 1 removes handler 2.  In the
  third, handler 2 removes handler 1 and adds it again.
\<close>

definition sample_behaviour ::
  "handler \<Rightarrow> nat \<Rightarrow> nat \<Rightarrow> completion \<times> registry_op list \<times> nat" where
  "sample_behaviour h p u =
     (if h = 1 then (Threw (Error ''boom''), [], u) else (Returned, [], u + p))"

definition removes_second ::
  "handler \<Rightarrow> nat \<Rightarrow> nat \<Rightarrow> completion \<times> registry_op list \<times> nat" where
  "removes_second h p u =
     (if h = 1 then (Returned, [RemoveHandler 2], u) else (Returned, [], u + p))"

definition readds_first ::
  "handler \<Rightarrow> nat \<Rightarrow> nat \<Rightarrow> completion \<times> registry_op list \<times> nat" where
  "readds_first h p u =
     (if h = 2 then (Returned, [RemoveHandler 1, AddHandler 1], u) else (Returned, [], u + p))"


section \<open>The types of the wallet protocol\<close>

text \<open>
  The package \<^verbatim>\<open>@azguardwallet/types\<close> is not part of the sources; these are the
  fields the client and the provider read and write.  Optional fields are options.
\<close>

type_synonym CaipAccount = string

record DappPermissions =
  chains :: "string list option"
  methods :: "string list option"
  events :: "string list option"

record DappSession =
  id' :: string
  accounts :: "CaipAccount list"
  permissions :: "DappPermissions list"

record DappMetadata =
  name :: string

datatype EncodedCallAction = Encoded_call string string "string list"

datatype Action =
    Add_private_authwit string string string "string list"
  | Action_encoded_call EncodedCallAction

datatype Operation =
    Send_transaction CaipAccount "Action list"
  | Simulate_views CaipAccount "EncodedCallAction list"
  | Other_operation string

text \<open>
  An operation result is tagged by its status: \<open>Ok\<close> carries the result, \<open>Failed\<close>
  the error text, \<open>Skipped\<close> nothing.  The type of the result is the one the caller
  casts to (\<^verbatim>\<open>as OkResult<SimulateViewsResult>\<close>).
\<close>

datatype 'r OperationResult = Ok 'r | Failed string | Skipped

text \<open>
  The result of a \<^verbatim>\<open>simulate_views\<close> operation, with the two fields the repository
  uses: the provider reads \<^verbatim>\<open>encoded\<close>, one array of strings per call, and the
  README reads \<^verbatim>\<open>decoded\<close>, the decoded return value of each call (of a type the
  client does not look into).
\<close>

record 'd SimulateViewsResult =
  encoded :: "string list list"
  decoded :: "'d list"

type_synonym SendTransactionResult = string

datatype AzguardRpcClient = Channel nat

record azguard_object =
  version :: string
  createClient :: AzguardRpcClient

datatype request =
    Connect DappMetadata "DappPermissions list" "DappPermissions list option"
  | Close_session string
  | Execute string "Operation list"
  | Get_wallet_info
  | Get_session string


section \<open>client.ts: the state of a page\<close>

text \<open>
  The four registries carry different payloads: nothing, the account list, or the
  permission list.
\<close>

datatype payload = Void | Accounts "CaipAccount list" | Permissions "DappPermissions list"

datatype event_name = Connected | Disconnected | AccountsChanged | PermissionsChanged

text \<open>
  What code outside the client can read at some moment: the three public getters and the
  entry of \<^verbatim>\<open>localStorage\<close> under the client's key.
\<close>

record snapshot =
  seen_connected :: bool
  seen_accounts :: "CaipAccount list"
  seen_permissions :: "DappPermissions list"
  seen_stored :: "string option"

text \<open>
  What the client does to the outside: a request on the channel, a call of a subscriber's
  callback, a write to \<^verbatim>\<open>localStorage\<close>, a console warning.  The trace of a page
  lists these in the order they happen, each with the snapshot at that moment.
\<close>

datatype effect =
    Rpc_request AzguardRpcClient request
  | Handler_call event_name handler payload
  | SetItem string string
  | RemoveItem string
  | Console_warn string

record AzguardClient =
  scope :: string
  onConnected :: EventHandlers
  onDisconnected :: EventHandlers
  onAccountsChanged :: EventHandlers
  onPermissionsChanged :: EventHandlers
  rpc :: "AzguardRpcClient option"
  session :: "DappSession option"

text \<open>
  A page is the client object together with what it acts on: \<^verbatim>\<open>localStorage\<close>, the
  callbacks registered on channels by \<^verbatim>\<open>client.on\<close> (\<open>listeners\<close>), the function
  objects of the subscribers (\<open>callbacks h payload seen\<close> is how the callback \<open>h\<close>
  completes, given what it reads), and the trace.
\<close>

record page = AzguardClient +
  localStorage :: "string \<Rightarrow> string option"
  listeners :: "(AzguardRpcClient \<times> string) list"
  callbacks :: "handler \<Rightarrow> payload \<Rightarrow> snapshot \<Rightarrow> completion"
  trace :: "(effect \<times> snapshot) list"

definition storage_key :: "string \<Rightarrow> string" where
  "storage_key sc = ''azguard:session:'' @ sc"

definition get_connected :: "'z AzguardClient_scheme \<Rightarrow> bool" where
  "get_connected w = (session w \<noteq> None)"

definition get_accounts :: "'z AzguardClient_scheme \<Rightarrow> CaipAccount list" where
  "get_accounts w = (case session w of None \<Rightarrow> [] | Some s \<Rightarrow> accounts s)"

definition get_permissions :: "'z AzguardClient_scheme \<Rightarrow> DappPermissions list" where
  "get_permissions w = (case session w of None \<Rightarrow> [] | Some s \<Rightarrow> permissions s)"

definition snapshot_of :: "'z page_scheme \<Rightarrow> snapshot" where
  "snapshot_of w =
     \<lparr>seen_connected = get_connected w, seen_accounts = get_accounts w,
      seen_permissions = get_permissions w,
      seen_stored = localStorage w (storage_key (scope w))\<rparr>"

definition emit :: "effect \<Rightarrow> 'z page_scheme \<Rightarrow> 'z page_scheme" where
  "emit e w = w\<lparr>trace := trace w @ [(e, snapshot_of w)]\<rparr>"

definition setItem :: "string \<Rightarrow> string \<Rightarrow> 'z page_scheme \<Rightarrow> 'z page_scheme" where
  "setItem k v w = (emit (SetItem k v) w)\<lparr>localStorage := (localStorage w)(k \<mapsto> v)\<rparr>"

definition removeItem :: "string \<Rightarrow> 'z page_scheme \<Rightarrow> 'z page_scheme" where
  "removeItem k w = (emit (RemoveItem k) w)\<lparr>localStorage := (localStorage w)(k := None)\<rparr>"

definition rpc_on :: "AzguardRpcClient \<Rightarrow> string \<Rightarrow> 'z page_scheme \<Rightarrow> 'z page_scheme" where
  "rpc_on client ev w = w\<lparr>listeners := listeners w @ [(client, ev)]\<rparr>"

definition call_handler ::
  "event_name \<Rightarrow> handler \<Rightarrow> payload \<Rightarrow> 'z page_scheme \<Rightarrow> completion \<times> 'z page_scheme" where
  "call_handler ev h p w = (callbacks w h p (snapshot_of w), emit (Handler_call ev h p) w)"


section \<open>client.ts: the methods\<close>

text \<open>
  An \<^verbatim>\<open>await\<close> of a channel request splits a method in two: what runs until the
  request is sent, and what runs when the channel settles it.  Where nothing of the
  client is written after the \<^verbatim>\<open>await\<close> the two halves are one function that takes
  the channel's answer (\<open>response\<close>, \<open>Inl\<close> a rejection) as an argument.
\<close>

definition connect_request ::
  "DappMetadata \<Rightarrow> DappPermissions list \<Rightarrow> DappPermissions list option \<Rightarrow>
   'z page_scheme \<Rightarrow> (error + unit) \<times> 'z page_scheme" where
  "connect_request dappMetadata requiredPermissions optionalPermissions w =
     (case rpc w of
        None \<Rightarrow> (Inl (Error ''Azguard Wallet is not installed''), w)
      | Some client \<Rightarrow>
          (Inr (), emit (Rpc_request client
                    (Connect dappMetadata requiredPermissions optionalPermissions)) w))"

definition connect_settled ::
  "error + DappSession \<Rightarrow> 'z page_scheme \<Rightarrow> (error + unit) \<times> 'z page_scheme" where
  "connect_settled response w =
     (case response of
        Inl e \<Rightarrow> (Inl e, w)
      | Inr s \<Rightarrow>
          (let w1 = w\<lparr>session := Some s\<rparr>;
               w2 = setItem (storage_key (scope w1)) (id' s) w1
           in case dispatch (call_handler Connected) (onConnected w2) Void w2 of
                (Threw e, w3) \<Rightarrow> (Inl e, w3)
              | (Returned, w3) \<Rightarrow> (Inr (), w3)))"

definition disconnect ::
  "error + unit \<Rightarrow> 'z page_scheme \<Rightarrow> (error + unit) \<times> 'z page_scheme" where
  "disconnect response w =
     (case session w of
        None \<Rightarrow> (Inr (), w)
      | Some s \<Rightarrow>
          (case rpc w of
             None \<Rightarrow> (Inl (TypeError ''Cannot read properties of undefined (reading request)''), w)
           | Some client \<Rightarrow> (response, emit (Rpc_request client (Close_session (id' s))) w)))"

definition execute ::
  "Operation list \<Rightarrow> error + 'r OperationResult list \<Rightarrow> 'z page_scheme \<Rightarrow>
   (error + 'r OperationResult list) \<times> 'z page_scheme" where
  "execute operations response w =
     (case rpc w of
        None \<Rightarrow> (Inl (Error ''Azguard Wallet is not installed''), w)
      | Some client \<Rightarrow>
          (case session w of
             None \<Rightarrow> (Inl (Error ''Azguard Wallet is not connected''), w)
           | Some s \<Rightarrow>
               (response, emit (Rpc_request client (Execute (id' s) operations)) w)))"

definition getWalletInfo ::
  "error + 'i \<Rightarrow> 'z page_scheme \<Rightarrow> (error + 'i) \<times> 'z page_scheme" where
  "getWalletInfo response w =
     (case rpc w of
        None \<Rightarrow> (Inl (Error ''Azguard Wallet is not installed''), w)
      | Some client \<Rightarrow> (response, emit (Rpc_request client Get_wallet_info) w))"

text \<open>
  The comparisons of \<open>#onSessionUpdated\<close>.  \<open>a || b\<close> evaluates \<open>b\<close> only when \<open>a\<close>
  is falsy; \<^verbatim>\<open>xs.some((x, i) => f)\<close> stops at the first element for which the
  callback is truthy; \<^verbatim>\<open>xs?.length ?? 0\<close> is 0 for an absent list and
  \<^verbatim>\<open>xs?.some(f)\<close> is \<^verbatim>\<open>undefined\<close>, which is falsy, for an absent list.
  Reading a property of \<^verbatim>\<open>undefined\<close> throws, so every comparison returns
  \<open>error + bool\<close>.
\<close>

definition or_else :: "error + bool \<Rightarrow> error + bool \<Rightarrow> error + bool" where
  "or_else a b = (case a of Inl e \<Rightarrow> Inl e | Inr t \<Rightarrow> if t then Inr True else b)"

fun some_from :: "nat \<Rightarrow> ('a \<Rightarrow> nat \<Rightarrow> error + bool) \<Rightarrow> 'a list \<Rightarrow> error + bool" where
  "some_from i f [] = Inr False"
| "some_from i f (x # xs) = or_else (f x i) (some_from (Suc i) f xs)"

definition some :: "('a \<Rightarrow> nat \<Rightarrow> error + bool) \<Rightarrow> 'a list \<Rightarrow> error + bool" where
  "some f xs = some_from 0 f xs"

definition optional_some ::
  "('a \<Rightarrow> nat \<Rightarrow> error + bool) \<Rightarrow> 'a list option \<Rightarrow> error + bool" where
  "optional_some f xs = (case xs of None \<Rightarrow> Inr False | Some l \<Rightarrow> some f l)"

definition optional_length :: "'a list option \<Rightarrow> nat" where
  "optional_length xs = (case xs of None \<Rightarrow> 0 | Some l \<Rightarrow> length l)"

text \<open>\<^verbatim>\<open>c !== ys![j]\<close>: throws when \<open>ys\<close> is absent; out of range it compares with
  \<^verbatim>\<open>undefined\<close>, which no string equals.\<close>

definition differs_at :: "string list option \<Rightarrow> string \<Rightarrow> nat \<Rightarrow> error + bool" where
  "differs_at ys c j =
     (case ys of
        None \<Rightarrow> Inl (TypeError ''Cannot read properties of undefined'')
      | Some l \<Rightarrow> Inr (Some c \<noteq> at_index l j))"

definition permission_differs ::
  "DappPermissions list \<Rightarrow> DappPermissions \<Rightarrow> nat \<Rightarrow> error + bool" where
  "permission_differs new p i =
     (case at_index new i of
        None \<Rightarrow> Inl (TypeError ''Cannot read properties of undefined (reading chains)'')
      | Some q \<Rightarrow>
          or_else (Inr (optional_length (chains p) \<noteq> optional_length (chains q)))
         (or_else (optional_some (differs_at (chains q)) (chains p))
         (or_else (Inr (optional_length (methods p) \<noteq> optional_length (methods q)))
         (or_else (optional_some (differs_at (methods q)) (methods p))
         (or_else (Inr (optional_length (events p) \<noteq> optional_length (events q)))
                  (optional_some (differs_at (events q)) (events p)))))))"

definition permissionsChanged :: "DappPermissions list \<Rightarrow> DappPermissions list \<Rightarrow> error + bool" where
  "permissionsChanged old new =
     or_else (Inr (length old \<noteq> length new)) (some (permission_differs new) old)"

definition accountsChanged :: "CaipAccount list \<Rightarrow> CaipAccount list \<Rightarrow> error + bool" where
  "accountsChanged old new =
     or_else (Inr (length old \<noteq> length new)) (some (\<lambda>a i. Inr (Some a \<noteq> at_index new i)) old)"

definition onSessionUpdated :: "DappSession \<Rightarrow> 'z page_scheme \<Rightarrow> completion \<times> 'z page_scheme" where
  "onSessionUpdated s w =
     (case permissionsChanged (get_permissions w) (permissions s) of
        Inl e \<Rightarrow> (Threw e, w)
      | Inr permissions_changed \<Rightarrow>
     (case accountsChanged (get_accounts w) (accounts s) of
        Inl e \<Rightarrow> (Threw e, w)
      | Inr accounts_changed \<Rightarrow>
     (let w1 = w\<lparr>session := Some s\<rparr> in
      case (if permissions_changed
            then dispatch (call_handler PermissionsChanged) (onPermissionsChanged w1)
                   (Permissions (get_permissions w1)) w1
            else (Returned, w1)) of
        (Threw e, w2) \<Rightarrow> (Threw e, w2)
      | (Returned, w2) \<Rightarrow>
          (if accounts_changed
           then dispatch (call_handler AccountsChanged) (onAccountsChanged w2)
                  (Accounts (get_accounts w2)) w2
           else (Returned, w2)))))"

definition onSessionClosed :: "'z page_scheme \<Rightarrow> completion \<times> 'z page_scheme" where
  "onSessionClosed w =
     (case dispatch (call_handler Disconnected) (onDisconnected w) Void w of
        (Threw e, w1) \<Rightarrow> (Threw e, w1)
      | (Returned, w1) \<Rightarrow>
          (let w2 = w1\<lparr>session := None\<rparr>
           in (Returned, removeItem (storage_key (scope w2)) w2)))"


section \<open>client.ts: detection and initialisation\<close>

text \<open>
  The \<^verbatim>\<open>timeout\<close> is a JavaScript number: an IEEE 754 binary64 value.  Every finite
  double is a whole multiple of the least subnormal, \<^verbatim>\<open>2^-1074\<close>, and
  \<open>Finite n\<close> is the double \<^verbatim>\<open>n * 2^-1074\<close>: so one millisecond is
  \<open>Finite one_ms\<close>, the timeout of \<open>t\<close> milliseconds is \<open>Finite (ms t)\<close>, and a timeout
  with a fraction is some other \<open>Finite n\<close>.  The two zeros are the one value
  \<open>Finite 0\<close>: they behave alike under \<^verbatim>\<open>rest -= 10\<close> and \<^verbatim>\<open>rest <= 0\<close>.
\<close>

datatype number = Finite int | PosInfinity | NegInfinity | NaN

definition one_ms :: int where
  "one_ms = 2 ^ 1074"

definition ms :: "int \<Rightarrow> int" where
  "ms t = t * one_ms"

definition ten :: int where
  "ten = 10 * one_ms"

text \<open>
  The doubles are the multiples \<open>n\<close> that 53 significant bits hold, below
  \<^verbatim>\<open>2^1024\<close> in size.  \<open>bit_length n\<close> is the number of binary digits of \<open>n\<close>, and
  \<open>ulp n\<close> is the distance between the doubles around \<open>n\<close>: 1 (in units of the least
  subnormal) up to 53 digits, and twice as much with every further digit.
\<close>

function bit_length :: "int \<Rightarrow> nat" where
  "bit_length n = (if n \<le> 0 then 0 else Suc (bit_length (n div 2)))"
  by pat_completeness auto

termination
  by (relation "measure nat") auto

declare bit_length.simps [simp del]

definition ulp :: "int \<Rightarrow> int" where
  "ulp n = 2 ^ (bit_length \<bar>n\<bar> - 53)"

definition is_double :: "int \<Rightarrow> bool" where
  "is_double n = (ulp n dvd n \<and> \<bar>n\<bar> < 2 ^ 2098)"

text \<open>
  \<^verbatim>\<open>rest -= 10\<close> is the exact difference rounded to the nearest double, a tie going to
  the double with the even significand (\<open>nearest_even\<close>), and to an infinity from
  \<^verbatim>\<open>2^1024\<close> on (\<open>to_number\<close>).  The three values that are not finite are unchanged by
  subtracting 10, and only \<open>-Infinity\<close> of them is \<^verbatim>\<open><= 0\<close>.
\<close>

definition nearest_even :: "int \<Rightarrow> int" where
  "nearest_even n =
     (let u = ulp n; q = n div u; r = n mod u
      in if 2 * r < u \<or> (2 * r = u \<and> even q) then q * u else (q + 1) * u)"

definition to_number :: "int \<Rightarrow> number" where
  "to_number n =
     (if 2 ^ 2098 \<le> n then PosInfinity
      else if n \<le> - (2 ^ 2098) then NegInfinity
      else Finite n)"

fun minus10 :: "number \<Rightarrow> number" where
  "minus10 (Finite n) = to_number (nearest_even (n - ten))"
| "minus10 PosInfinity = PosInfinity"
| "minus10 NegInfinity = NegInfinity"
| "minus10 NaN = NaN"

fun le0 :: "number \<Rightarrow> bool" where
  "le0 (Finite n) = (n \<le> 0)"
| "le0 PosInfinity = False"
| "le0 NegInfinity = True"
| "le0 NaN = False"

text \<open>
  The callback of \<^verbatim>\<open>setInterval(..., 10)\<close> runs at the ticks 1, 2, 3, ... (10 ms
  apart) until \<^verbatim>\<open>clearInterval\<close>.  \<open>window k\<close> is the value of
  \<^verbatim>\<open>window.azguard\<close> at tick \<open>k\<close>.  The result \<open>Some (k, r)\<close> says that the promise
  resolves at tick \<open>k\<close> with \<open>r\<close> (\<open>None\<close> is \<^verbatim>\<open>undefined\<close>); the result \<open>None\<close>
  says that it never resolves.
\<close>

partial_function (option) interval_ticks ::
  "(nat \<Rightarrow> 'a option) \<Rightarrow> number \<Rightarrow> nat \<Rightarrow> (nat \<times> 'a option) option" where
  "interval_ticks window rest k =
     (let rest' = minus10 rest in
      case window k of
        Some azguard \<Rightarrow> Some (k, Some azguard)
      | None \<Rightarrow> if le0 rest' then Some (k, None) else interval_ticks window rest' (Suc k))"

declare interval_ticks.simps [code]

definition getAzguardObject :: "(nat \<Rightarrow> 'a option) \<Rightarrow> number \<Rightarrow> (nat \<times> 'a option) option" where
  "getAzguardObject window timeout = interval_ticks window timeout 1"

definition isAzguardInstalled :: "(nat \<Rightarrow> 'a option) \<Rightarrow> number \<Rightarrow> (nat \<times> bool) option" where
  "isAzguardInstalled window timeout =
     map_option (\<lambda>(k, azguard). (k, azguard \<noteq> None)) (getAzguardObject window timeout)"

definition isAzguardInstalledAndCompatible ::
  "string \<Rightarrow> (nat \<Rightarrow> azguard_object option) \<Rightarrow> number \<Rightarrow> (nat \<times> bool) option" where
  "isAzguardInstalledAndCompatible packageVersion window timeout =
     map_option
       (\<lambda>(k, azguard).
           (k, case azguard of None \<Rightarrow> False | Some a \<Rightarrow> isCompatible packageVersion (version a)))
       (getAzguardObject window timeout)"

text \<open>
  The tick at which a poll that never sees the object gives up, as the arithmetic of the
  loop has it while the subtraction is exact: the timeout divided by 10 ms and rounded
  up, and at least one tick.
\<close>

definition deadline_tick :: "int \<Rightarrow> nat" where
  "deadline_tick n = max 1 (nat (- ((- n) div ten)))"

text \<open>
  The poll, said without the loop: among the ticks \<open>k, ..., k + m - 1\<close> it resolves at
  the first one that sees the object, with that object, and at the last one with
  \<^verbatim>\<open>undefined\<close> when none does.
\<close>

definition poll_spec :: "(nat \<Rightarrow> 'a option) \<Rightarrow> nat \<Rightarrow> nat \<Rightarrow> nat \<times> 'a option" where
  "poll_spec window k m =
     (case find (\<lambda>j. window j \<noteq> None) [k..<k + m] of
        Some j \<Rightarrow> (j, window j)
      | None \<Rightarrow> (k + m - 1, None))"

definition never_present :: "nat \<Rightarrow> azguard_object option" where
  "never_present k = None"

definition wallet_1_2_0 :: azguard_object where
  "wallet_1_2_0 = \<lparr>version = ''1.2.0'', createClient = Channel 0\<rparr>"

definition always_present :: "nat \<Rightarrow> azguard_object option" where
  "always_present k = Some wallet_1_2_0"

text \<open>The timeout of 25.5 ms, a double with a fraction: \<^verbatim>\<open>51 * 2^-1\<close>.\<close>

definition timeout_25_5 :: int where
  "timeout_25_5 = 51 * 2 ^ 1073"

text \<open>
  \<open>#init\<close> after \<open>getAzguardObject\<close> has resolved.  It either finishes at once or sends
  \<^verbatim>\<open>get_session\<close> and waits; \<open>init_session_settled\<close> is the rest.  A stored
  identifier is used when it is truthy: present and not the empty string.  A rejected
  \<^verbatim>\<open>get_session\<close> rejects \<open>create\<close>: no caller ever holds the client.
\<close>

datatype phase = Polling | Restoring AzguardRpcClient | Ready | Rejected

definition init_detected ::
  "string \<Rightarrow> azguard_object option \<Rightarrow> 'z page_scheme \<Rightarrow> phase \<times> 'z page_scheme" where
  "init_detected packageVersion azguard w =
     (case azguard of
        None \<Rightarrow> (Ready, w)
      | Some a \<Rightarrow>
          (let w1 = (if \<not> isCompatible packageVersion (version a)
                     then emit (Console_warn ''Client version is not compatible with the wallet version'') w
                     else w);
               client = createClient a;
               w2 = rpc_on client ''session_updated'' w1;
               w3 = rpc_on client ''session_closed'' w2
           in case localStorage w3 (storage_key (scope w3)) of
                None \<Rightarrow> (Ready, w3\<lparr>rpc := Some client, session := None\<rparr>)
              | Some sessionId \<Rightarrow>
                  if sessionId = [] then (Ready, w3\<lparr>rpc := Some client, session := None\<rparr>)
                  else (Restoring client, emit (Rpc_request client (Get_session sessionId)) w3)))"

definition init_session_settled ::
  "AzguardRpcClient \<Rightarrow> error + DappSession option \<Rightarrow> 'z page_scheme \<Rightarrow> phase \<times> 'z page_scheme" where
  "init_session_settled client response w =
     (case response of
        Inl e \<Rightarrow> (Rejected, w)
      | Inr s \<Rightarrow> (Ready, w\<lparr>rpc := Some client, session := s\<rparr>))"


section \<open>A client over time\<close>

text \<open>
  Everything that can happen to one client, as inputs to a step function: the detection
  poll resolves; the channel settles a request; the wallet pushes a notification, which
  runs the callback registered by \<^verbatim>\<open>client.on\<close> (if one is registered); the dapp
  calls a method.  The constructor is private and \<open>create\<close> resolves to the client only
  when \<open>#init\<close> has returned, so the dapp's calls happen in the phase \<open>Ready\<close> only.
  \<open>disconnect\<close>, \<open>execute\<close> and \<open>getWalletInfo\<close> write nothing after their
  \<^verbatim>\<open>await\<close>, so what the channel answers them does not reach the state and the
  step function fixes one answer; the answers to \<^verbatim>\<open>connect\<close> and
  \<^verbatim>\<open>get_session\<close> are inputs of their own.
\<close>

datatype input =
    Detected "azguard_object option"
  | Get_session_settled "error + DappSession option"
  | Push_session_updated DappSession
  | Push_session_closed
  | Call_connect DappMetadata "DappPermissions list" "DappPermissions list option"
  | Connect_settled "error + DappSession"
  | Call_disconnect
  | Call_execute "Operation list"
  | Call_getWalletInfo
  | Call_addHandler event_name handler
  | Call_removeHandler event_name handler

record system = page +
  phase :: phase
  pending_connects :: nat

definition create ::
  "string \<Rightarrow> (string \<Rightarrow> string option) \<Rightarrow> (handler \<Rightarrow> payload \<Rightarrow> snapshot \<Rightarrow> completion) \<Rightarrow> system" where
  "create sc storage cbs =
     \<lparr>scope = sc, onConnected = new_EventHandlers, onDisconnected = new_EventHandlers,
      onAccountsChanged = new_EventHandlers, onPermissionsChanged = new_EventHandlers,
      rpc = None, session = None,
      localStorage = storage, listeners = [], callbacks = cbs, trace = [],
      phase = Polling, pending_connects = 0\<rparr>"

definition listening :: "string \<Rightarrow> 'z page_scheme \<Rightarrow> bool" where
  "listening ev w = (ev \<in> snd ` set (listeners w))"

fun update_registry ::
  "(handler \<Rightarrow> EventHandlers \<Rightarrow> EventHandlers) \<Rightarrow> event_name \<Rightarrow> handler \<Rightarrow>
   'z AzguardClient_scheme \<Rightarrow> 'z AzguardClient_scheme" where
  "update_registry f Connected h w = w\<lparr>onConnected := f h (onConnected w)\<rparr>"
| "update_registry f Disconnected h w = w\<lparr>onDisconnected := f h (onDisconnected w)\<rparr>"
| "update_registry f AccountsChanged h w = w\<lparr>onAccountsChanged := f h (onAccountsChanged w)\<rparr>"
| "update_registry f PermissionsChanged h w = w\<lparr>onPermissionsChanged := f h (onPermissionsChanged w)\<rparr>"

fun step :: "string \<Rightarrow> system \<Rightarrow> input \<Rightarrow> system" where
  "step pv s (Detected azguard) =
     (if phase s = Polling
      then (case init_detected pv azguard s of (ph, s') \<Rightarrow> s'\<lparr>phase := ph\<rparr>)
      else s)"
| "step pv s (Get_session_settled response) =
     (case phase s of
        Restoring client \<Rightarrow>
          (case init_session_settled client response s of (ph, s') \<Rightarrow> s'\<lparr>phase := ph\<rparr>)
      | _ \<Rightarrow> s)"
| "step pv s (Push_session_updated new_session) =
     (if listening ''session_updated'' s then snd (onSessionUpdated new_session s) else s)"
| "step pv s Push_session_closed =
     (if listening ''session_closed'' s then snd (onSessionClosed s) else s)"
| "step pv s (Call_connect dappMetadata requiredPermissions optionalPermissions) =
     (if phase s = Ready
      then (case connect_request dappMetadata requiredPermissions optionalPermissions s of
              (Inl e, s') \<Rightarrow> s'
            | (Inr u, s') \<Rightarrow> s'\<lparr>pending_connects := Suc (pending_connects s')\<rparr>)
      else s)"
| "step pv s (Connect_settled response) =
     (if 0 < pending_connects s
      then snd (connect_settled response (s\<lparr>pending_connects := pending_connects s - 1\<rparr>))
      else s)"
| "step pv s Call_disconnect =
     (if phase s = Ready then snd (disconnect (Inr ()) s) else s)"
| "step pv s (Call_execute operations) =
     (if phase s = Ready
      then snd (execute operations (Inr ([] :: unit OperationResult list)) s) else s)"
| "step pv s Call_getWalletInfo =
     (if phase s = Ready then snd (getWalletInfo (Inr ()) s) else s)"
| "step pv s (Call_addHandler ev h) =
     (if phase s = Ready then update_registry addHandler ev h s else s)"
| "step pv s (Call_removeHandler ev h) =
     (if phase s = Ready then update_registry removeHandler ev h s else s)"

definition run ::
  "string \<Rightarrow> input list \<Rightarrow> system \<Rightarrow> system" where
  "run pv inputs s = foldl (step pv) s inputs"


section \<open>providers/shieldswap: the provider\<close>

datatype SerializedFunctionCall = Function_call string string "string list"

record call_request =
  from' :: string
  calls :: "SerializedFunctionCall list"

record send_request = call_request +
  authWitnesses :: "(string \<times> SerializedFunctionCall) list"

fun encoded_call_action :: "SerializedFunctionCall \<Rightarrow> EncodedCallAction" where
  "encoded_call_action (Function_call to selector args) = Encoded_call to selector args"

fun add_private_authwit_action :: "string \<times> SerializedFunctionCall \<Rightarrow> Action" where
  "add_private_authwit_action (caller, Function_call to selector args) =
     Add_private_authwit caller to selector args"

text \<open>
  \<^verbatim>\<open>if (!account)\<close> holds for \<^verbatim>\<open>undefined\<close> and for the empty string.
  \<^verbatim>\<open>const [result] = ...\<close> binds \<^verbatim>\<open>undefined\<close> for an empty array, and reading
  its status throws.  The error text of a result that has none prints as
  \<^verbatim>\<open>undefined\<close>.
\<close>

definition aztec_sendTransaction ::
  "'y send_request_scheme \<Rightarrow> error + SendTransactionResult OperationResult list \<Rightarrow>
   'z page_scheme \<Rightarrow> (error + string) \<times> 'z page_scheme" where
  "aztec_sendTransaction request response w =
     (case find (\<lambda>x. endsWith x (from' request)) (get_accounts w) of
        None \<Rightarrow> (Inl (Error ''Unauthorized account''), w)
      | Some account \<Rightarrow>
          if account = [] then (Inl (Error ''Unauthorized account''), w)
          else
            (let actions = map add_private_authwit_action (authWitnesses request)
                           @ map (\<lambda>x. Action_encoded_call (encoded_call_action x)) (calls request)
             in case execute [Send_transaction account actions] response w of
                  (Inl e, w') \<Rightarrow> (Inl e, w')
                | (Inr [], w') \<Rightarrow>
                    (Inl (TypeError ''Cannot read properties of undefined (reading status)''), w')
                | (Inr (Ok r # _), w') \<Rightarrow> (Inr r, w')
                | (Inr (Failed e # _), w') \<Rightarrow> (Inl (Error (''Operation failed: '' @ e)), w')
                | (Inr (Skipped # _), w') \<Rightarrow> (Inl (Error ''Operation failed: undefined''), w')))"

definition aztec_call ::
  "'y call_request_scheme \<Rightarrow> error + 'd SimulateViewsResult OperationResult list \<Rightarrow>
   'z page_scheme \<Rightarrow> (error + string list list) \<times> 'z page_scheme" where
  "aztec_call request response w =
     (case find (\<lambda>x. endsWith x (from' request)) (get_accounts w) of
        None \<Rightarrow> (Inl (Error ''Unauthorized account''), w)
      | Some account \<Rightarrow>
          if account = [] then (Inl (Error ''Unauthorized account''), w)
          else
            (let calls' = map encoded_call_action (calls request)
             in case execute [Simulate_views account calls'] response w of
                  (Inl e, w') \<Rightarrow> (Inl e, w')
                | (Inr [], w') \<Rightarrow>
                    (Inl (TypeError ''Cannot read properties of undefined (reading status)''), w')
                | (Inr (Ok r # _), w') \<Rightarrow> (Inr (encoded r), w')
                | (Inr (Failed e # _), w') \<Rightarrow> (Inl (Error (''Simulation failed: '' @ e)), w')
                | (Inr (Skipped # _), w') \<Rightarrow> (Inl (Error ''Simulation failed: undefined''), w')))"


section \<open>Notions used to state the properties\<close>

text \<open>
  The trace of one dispatch: one call per registered handler, in the order of the set,
  each seeing the same snapshot.
\<close>

definition notified ::
  "event_name \<Rightarrow> payload \<Rightarrow> EventHandlers \<Rightarrow> snapshot \<Rightarrow> (effect \<times> snapshot) list" where
  "notified ev p hs seen = map (\<lambda>h. (Handler_call ev h p, seen)) hs"

text \<open>
  The specification's wording of the comparison of two permission lists: they differ
  positionally when their lengths differ, or at some index the chain lists, the method
  lists or the event lists differ element by element in order.  A list that is absent has
  no elements.
\<close>

definition listed :: "'a list option \<Rightarrow> 'a list" where
  "listed xs = (case xs of None \<Rightarrow> [] | Some l \<Rightarrow> l)"

definition grant_differs :: "DappPermissions \<Rightarrow> DappPermissions \<Rightarrow> bool" where
  "grant_differs p q =
     (listed (chains p) \<noteq> listed (chains q) \<or> listed (methods p) \<noteq> listed (methods q)
      \<or> listed (events p) \<noteq> listed (events q))"

definition permissions_differ_spec :: "DappPermissions list \<Rightarrow> DappPermissions list \<Rightarrow> bool" where
  "permissions_differ_spec old new =
     (length old \<noteq> length new \<or> (\<exists>i < length old. grant_differs (old ! i) (new ! i)))"

text \<open>Sample data: two sessions, subscribers of which the first throws, stored identifiers.\<close>

definition session_1 :: DappSession where
  "session_1 =
     \<lparr>id' = ''sid1'',
      accounts = [''aztec:41337:0xabc'', ''aztec:31337:0xabc''],
      permissions = [\<lparr>chains = Some [''aztec:41337''], methods = Some [''simulate_views''],
                      events = None\<rparr>]\<rparr>"




definition callbacks_1 :: "handler \<Rightarrow> payload \<Rightarrow> snapshot \<Rightarrow> completion" where
  "callbacks_1 h p seen = (if h = 1 then Threw (Error ''boom'') else Returned)"

definition no_storage :: "string \<Rightarrow> string option" where
  "no_storage k = None"

definition stored_sid0 :: "string \<Rightarrow> string option" where
  "stored_sid0 k = (if k = ''azguard:session:default'' then Some ''sid0'' else None)"

definition connect_inputs :: "input list" where
  "connect_inputs =
     [Detected (Some wallet_1_2_0),
      Call_addHandler Disconnected 1, Call_addHandler Disconnected 2,
      Call_addHandler PermissionsChanged 3, Call_addHandler AccountsChanged 4,
      Call_connect \<lparr>name = ''dapp''\<rparr> [] None,
      Connect_settled (Inr session_1)]"

definition system_connected :: system where
  "system_connected = run ''1.2.0'' connect_inputs (create ''default'' no_storage callbacks_1)"

definition system_installed :: system where
  "system_installed =
     run ''1.2.0'' [Detected (Some wallet_1_2_0)] (create ''default'' no_storage callbacks_1)"

definition system_not_installed :: system where
  "system_not_installed = run ''1.2.0'' [Detected None] (create ''default'' no_storage callbacks_1)"

definition system_init_window :: system where
  "system_init_window =
     run ''1.2.0'' [Detected (Some wallet_1_2_0), Push_session_updated session_1]
       (create ''default'' stored_sid0 callbacks_1)"

definition views_1 :: "string list SimulateViewsResult" where
  "views_1 = \<lparr>encoded = [[''0x05'']], decoded = [[''5'']]\<rparr>"

definition call_request_1 :: call_request where
  "call_request_1 = \<lparr>from' = ''0xabc'', calls = [Function_call ''0x11'' ''0x22'' [''0x33'']]\<rparr>"

definition call_request_empty :: call_request where
  "call_request_empty = \<lparr>from' = [], calls = [Function_call ''0x11'' ''0x22'' [''0x33'']]\<rparr>"

definition send_request_empty :: send_request where
  "send_request_empty =
     \<lparr>from' = [], calls = [Function_call ''0x11'' ''0x22'' [''0x33'']],
      authWitnesses = [(''0x44'', Function_call ''0x55'' ''0x66'' [])]\<rparr>"

text \<open>
  What holds of a client before a channel is bound: while the poll runs, and afterwards
  when the wallet was not found, nothing listens on a channel, no session is held and no
  \<^verbatim>\<open>connect\<close> is in flight.
\<close>

definition unbound_invariant :: "system \<Rightarrow> bool" where
  "unbound_invariant s =
     ((phase s = Polling \<or> (phase s = Ready \<and> rpc s = None)) \<longrightarrow>
        listeners s = [] \<and> rpc s = None \<and> session s = None \<and> pending_connects s = 0)"


section \<open>Properties of the string helpers\<close>

lemma js_split_nonempty: "js_split sep s \<noteq> []"
  by (induction s) (auto split: list.splits)

lemma take2_eq_at_index:
  assumes "xs \<noteq> []" and "ys \<noteq> []"
  shows "(take 2 xs = take 2 ys) =
         (at_index xs 0 = at_index ys 0 \<and> at_index xs 1 = at_index ys 1)"
proof (cases xs)
  case Nil
  with assms show ?thesis by simp
next
  case xs: (Cons a as)
  show ?thesis
  proof (cases ys)
    case Nil
    with assms show ?thesis by simp
  next
    case ys: (Cons b bs)
    show ?thesis
      unfolding xs ys
      by (cases as; cases bs) (auto simp: at_index_def)
  qed
qed


section \<open>The compatibility check\<close>

text \<open>
  C7.  \<open>isCompatible\<close> is a function of the two version strings alone, and it holds
  exactly when the first two dot-separated segments of the wallet's version equal those
  of the client's version as strings (a missing segment only equals a missing segment);
  later segments are ignored and nothing is read as a number: against the client version
  1.2.0 the wallet version 1.2.9 is compatible and 01.2.0 is not, and against the client
  version 1.3.0 the wallet version 1.2.9 is not compatible.
\<close>

theorem isCompatible_first_two_segments:
  "isCompatible packageVersion remoteVersion = isCompatible_spec packageVersion remoteVersion
   \<and> isCompatible ''1.2.0'' ''1.2.9''
   \<and> \<not> isCompatible ''1.3.0'' ''1.2.9''
   \<and> \<not> isCompatible ''1.2.0'' ''01.2.0''"
proof -
  have "isCompatible packageVersion remoteVersion = isCompatible_spec packageVersion remoteVersion"
    unfolding isCompatible_def isCompatible_spec_def majorVersion_def minorVersion_def Let_def
    using take2_eq_at_index [OF js_split_nonempty js_split_nonempty] by simp
  moreover have "isCompatible ''1.2.0'' ''1.2.9''"
    by (simp add: isCompatible_def majorVersion_def minorVersion_def at_index_def)
  moreover have "\<not> isCompatible ''1.3.0'' ''1.2.9''"
    by (simp add: isCompatible_def majorVersion_def minorVersion_def at_index_def)
  moreover have "\<not> isCompatible ''1.2.0'' ''01.2.0''"
    by (simp add: isCompatible_def majorVersion_def minorVersion_def at_index_def)
  ultimately show ?thesis by simp
qed


section \<open>The registry of event handlers\<close>

lemma distinct_apply_registry_op: "distinct hs \<Longrightarrow> distinct (apply_registry_op hs op)"
  by (cases op)
     (auto simp: addHandler_def removeHandler_def set_add_def set_delete_def distinct_removeAll)

lemma distinct_foldl_registry: "distinct hs \<Longrightarrow> distinct (foldl apply_registry_op hs ops)"
  by (induction ops arbitrary: hs) (auto simp: distinct_apply_registry_op)

lemma distinct_registry: "distinct (registry ops)"
  by (simp add: registry_def new_EventHandlers_def distinct_foldl_registry)

lemma try_catch_Returned: "fst (try_catch r) = Returned"
  by (cases r; cases "fst r") (auto simp: try_catch_def)

lemma try_catch_world: "snd (try_catch r) = snd r"
  by (cases r; cases "fst r") (auto simp: try_catch_def)

lemma dispatch_Nil: "dispatch call [] p w = (Returned, w)"
  by (simp add: dispatch_def)

lemma dispatch_Cons: "dispatch call (h # hs) p w = dispatch call hs p (snd (call h p w))"
proof -
  obtain c w' where r: "try_catch (call h p w) = (c, w')"
    by (cases "try_catch (call h p w)")
  with try_catch_Returned [of "call h p w"] have c: "c = Returned" by simp
  from r try_catch_world [of "call h p w"] have w': "w' = snd (call h p w)" by simp
  show ?thesis by (simp add: dispatch_def r c w')
qed

lemma dispatch_never_throws: "fst (dispatch call hs p w) = Returned"
  by (induction hs arbitrary: w) (simp_all add: dispatch_Nil dispatch_Cons)

lemma invoke_calls: "fst (snd (invoke b h p w)) = fst w @ [(h, p)]"
  by (simp add: invoke_def split: prod.splits)

lemma dispatch_invoke_calls:
  "fst (snd (dispatch (invoke b) hs p w)) = fst w @ map (\<lambda>h. (h, p)) hs"
  by (induction hs arbitrary: w) (simp_all add: dispatch_Nil dispatch_Cons invoke_calls)

lemma count_list_distinct_calls:
  "distinct hs \<Longrightarrow> count_list (map (\<lambda>h. (h, p)) hs) (h, p) = (if h \<in> set hs then 1 else 0)"
  by (induction hs) auto

lemma for_of_live_completes:
  assumes "for_of_live body i d = Some r" and "\<forall>h d. fst (body h d) = Returned"
  shows "fst r = Returned"
proof -
  have "(\<forall>h d. fst (body h d) = Returned) \<longrightarrow> fst r = Returned"
  proof (rule for_of_live.raw_induct
           [where P = "\<lambda>body i d r. (\<forall>h d. fst (body h d) = Returned) \<longrightarrow> fst r = Returned",
            OF _ assms(1)], goal_cases)
    case (1 f body i d r)
    show ?case
    proof
      assume ret: "\<forall>h d. fst (body h d) = Returned"
      show "fst r = Returned"
      proof (cases "i < length (entries d)")
        case False
        with 1(2) show ?thesis by auto
      next
        case True
        show ?thesis
        proof (cases "entries d ! i")
          case None
          with True 1(2) have "f body (Suc i) d = Some r" by simp
          from 1(1) [OF this] ret show ?thesis by blast
        next
          case (Some h)
          obtain c d' where b: "body h d = (c, d')" by (cases "body h d")
          with ret have c: "c = Returned" by (metis fst_conv)
          from True Some b c 1(2) have "f body (Suc i) d' = Some r" by simp
          from 1(1) [OF this] ret show ?thesis by blast
        qed
      qed
    qed
  qed
  with assms(2) show ?thesis by blast
qed

lemma dispatch_live_completes:
  assumes "dispatch_live behaviour hs payload u = Some (c, r)"
  shows "c = Returned"
proof -
  let ?body = "\<lambda>handler d. try_catch (call_live behaviour handler payload d)"
  let ?d = "\<lparr>entries = map Some hs, called = [], world = u\<rparr>"
  from assms obtain x where x: "for_of_live ?body 0 ?d = Some x"
    and c: "(c, r) = (\<lambda>(c, d). (c, live_contents (entries d), called d, world d)) x"
    by (auto simp: dispatch_live_def)
  have "\<forall>h d. fst (?body h d) = Returned" by (simp add: try_catch_Returned)
  from for_of_live_completes [OF x this] c show ?thesis by (cases x) simp
qed

lemma live_contents_map_Some: "live_contents (map Some hs) = hs"
  by (induction hs) (simp_all add: live_contents_def)

lemma for_of_live_no_edits:
  assumes "\<forall>h \<in> set hs. \<forall>u. fst (snd (behaviour h p u)) = []"
    and "entries d = map Some (pre @ hs)"
  shows "for_of_live (\<lambda>handler d. try_catch (call_live behaviour handler p d)) (length pre) d
         = Some (Returned,
             d\<lparr>called := fst (snd (dispatch
                         (invoke (\<lambda>h p u. (fst (behaviour h p u), snd (snd (behaviour h p u)))))
                         hs p (called d, world d))),
               world := snd (snd (dispatch
                         (invoke (\<lambda>h p u. (fst (behaviour h p u), snd (snd (behaviour h p u)))))
                         hs p (called d, world d)))\<rparr>)"
  using assms
proof (induction hs arbitrary: pre d)
  case Nil
  then have "\<not> length pre < length (entries d)" by simp
  then show ?case
    by (subst for_of_live.simps) (simp add: dispatch_Nil)
next
  case (Cons h hs)
  let ?b = "\<lambda>h p u. (fst (behaviour h p u), snd (snd (behaviour h p u)))"
  let ?body = "\<lambda>handler d. try_catch (call_live behaviour handler p d)"
  obtain c e u' where b0: "behaviour h p (world d) = (c, e, u')"
    by (cases "behaviour h p (world d)")
  from Cons.prems(1) have "fst (snd (behaviour h p (world d))) = []" by simp
  with b0 have beh: "behaviour h p (world d) = (c, [], u')" by simp
  let ?d1 = "\<lparr>entries = entries d, called = called d @ [(h, p)], world = u'\<rparr>"
  have call: "call_live behaviour h p d = (c, ?d1)"
    by (simp add: call_live_def beh)
  have body: "?body h d = (Returned, ?d1)"
    using try_catch_Returned [of "call_live behaviour h p d"]
      try_catch_world [of "call_live behaviour h p d"]
    by (simp add: call prod_eq_iff)
  have lt: "length pre < length (entries d)" and at: "entries d ! length pre = Some h"
    using Cons.prems(2) by (simp_all add: nth_append)
  have e1: "entries ?d1 = map Some ((pre @ [h]) @ hs)"
    using Cons.prems(2) by simp
  have q: "\<forall>h \<in> set hs. \<forall>u. fst (snd (behaviour h p u)) = []"
    using Cons.prems(1) by simp
  from Cons.IH [OF q e1]
  have IH: "for_of_live ?body (Suc (length pre)) ?d1
         = Some (Returned,
             ?d1\<lparr>called := fst (snd (dispatch (invoke ?b) hs p (called ?d1, world ?d1))),
                  world := snd (snd (dispatch (invoke ?b) hs p (called ?d1, world ?d1)))\<rparr>)"
    by simp
  have step: "snd (invoke ?b h p (called d, world d)) = (called ?d1, world ?d1)"
    by (simp add: invoke_def beh)
  show ?case
    by (subst for_of_live.simps) (simp add: lt at body IH dispatch_Cons step)
qed

lemma dispatch_live_no_edits:
  assumes "\<forall>h \<in> set hs. \<forall>u. fst (snd (behaviour h p u)) = []"
  shows "dispatch_live behaviour hs p u
         = Some (Returned, hs,
             fst (snd (dispatch
                   (invoke (\<lambda>h p u. (fst (behaviour h p u), snd (snd (behaviour h p u)))))
                   hs p ([], u))),
             snd (snd (dispatch
                   (invoke (\<lambda>h p u. (fst (behaviour h p u), snd (snd (behaviour h p u)))))
                   hs p ([], u))))"
proof -
  have "entries \<lparr>entries = map Some hs, called = [], world = u\<rparr> = map Some ([] @ hs)"
    by simp
  with assms show ?thesis
    using for_of_live_no_edits
            [where behaviour = behaviour and hs = hs and p = p and pre = "[]"
               and d = "\<lparr>entries = map Some hs, called = [], world = u\<rparr>"]
    by (simp add: dispatch_live_def live_contents_map_Some)
qed

text \<open>
  C5, as the code has it.  \<open>dispatch\<close> never throws, whatever the callbacks do.  Take
  any registry built from an empty one by calls of \<open>addHandler\<close> and \<open>removeHandler\<close>,
  any payload, and callbacks, throwing or not, of which none that is registered adds or
  removes a handler of this registry while it is called.  Then \<open>dispatch\<close> returns, the
  registry is as before, and the calls it made are exactly one call with the payload for
  each registered handler, in the order of the set: a handler is called once if it is
  registered (also when it was added twice) and not at all otherwise, and a callback that
  throws keeps no other from being called.
\<close>

theorem dispatch_each_handler_once:
  assumes "\<forall>h \<in> set (registry ops). \<forall>u. fst (snd (behaviour h payload u)) = []"
  shows "(\<exists>u'. dispatch_live behaviour (registry ops) payload u
               = Some (Returned, registry ops, map (\<lambda>h. (h, payload)) (registry ops), u'))
   \<and> count_list (map (\<lambda>h. (h, payload)) (registry ops)) (h, payload)
       = (if h \<in> set (registry ops) then 1 else 0)
   \<and> (dispatch_live any_behaviour hs payload u = Some (c, r) \<longrightarrow> c = Returned)"
proof -
  from assms
  have "\<exists>u'. dispatch_live behaviour (registry ops) payload u
               = Some (Returned, registry ops, map (\<lambda>h. (h, payload)) (registry ops), u')"
    using dispatch_live_no_edits
            [where behaviour = behaviour and hs = "registry ops" and p = payload and u = u]
    by (simp add: dispatch_invoke_calls)
  moreover have "dispatch_live any_behaviour hs payload u = Some (c, r) \<longrightarrow> c = Returned"
  proof
    assume "dispatch_live any_behaviour hs payload u = Some (c, r)"
    then show "c = Returned" by (rule dispatch_live_completes)
  qed
  moreover note count_list_distinct_calls [OF distinct_registry, of payload ops h]
  ultimately show ?thesis by (intro conjI)
qed

theorem dispatch_each_handler_once_witness:
  "dispatch_live sample_behaviour (registry [AddHandler 1, AddHandler 2, AddHandler 1]) 5 0
     = Some (Returned, [1, 2], [(1, 5), (2, 5)], 5)
   \<and> count_list [(1 :: nat, 5 :: nat), (2, 5)] (1, 5) = 1"
proof -
  have r: "registry [AddHandler 1, AddHandler 2, AddHandler 1] = [1, 2]"
    by (simp add: registry_def new_EventHandlers_def addHandler_def set_add_def)
  have q: "\<forall>h \<in> set (registry [AddHandler 1, AddHandler 2, AddHandler 1]).
             \<forall>u. fst (snd (sample_behaviour h 5 u)) = []"
    by (simp add: sample_behaviour_def)
  note t = dispatch_each_handler_once
             [where ops = "[AddHandler 1, AddHandler 2, AddHandler 1]"
                and behaviour = sample_behaviour and payload = "5 :: nat" and u = "0 :: nat"
                and h = 1 and any_behaviour = sample_behaviour and hs = "[]"
                and c = Returned and r = "([], [], 0)", OF q]
  from t [THEN conjunct1, unfolded r]
  have e: "\<exists>u'. dispatch_live sample_behaviour [1, 2] 5 0
               = Some (Returned, [1, 2], [(1, 5), (2, 5)], u')"
    by simp
  from t [THEN conjunct2, THEN conjunct1, unfolded r]
  have c: "count_list [(1 :: nat, 5 :: nat), (2, 5)] (1, 5) = 1"
    by simp
  have "dispatch_live sample_behaviour [1, 2] 5 0 = Some (Returned, [1, 2], [(1, 5), (2, 5)], 5)"
    by code_simp
  with e c show ?thesis unfolding r by simp
qed

text \<open>
  Against C5 as worded for every registry and every handler.  The handlers 1, 2 and 3 are
  registered.  When handler 1 removes handler 2, \<open>dispatch\<close> calls 1 and 3 only: handler
  2, registered when the dispatch began, is not called.  When handler 2 removes handler 1
  and adds it again, \<open>dispatch\<close> calls 1, 2, 3 and 1: handler 1 is called twice.
\<close>

theorem dispatch_live_counterexample:
  "registry [AddHandler 1, AddHandler 2, AddHandler 3] = [1, 2, 3]
   \<and> dispatch_live removes_second (registry [AddHandler 1, AddHandler 2, AddHandler 3]) 5 0
       = Some (Returned, [1, 3], [(1, 5), (3, 5)], 5)
   \<and> dispatch_live readds_first (registry [AddHandler 1, AddHandler 2, AddHandler 3]) 5 0
       = Some (Returned, [2, 3, 1], [(1, 5), (2, 5), (3, 5), (1, 5)], 15)"
  by code_simp


section \<open>The detection poll\<close>

lemma one_ms_pos: "0 < one_ms"
  by (simp add: one_ms_def)

lemma ten_pos: "0 < ten"
  by (simp add: ten_def one_ms_pos)

lemma bit_length_nonpos: "n \<le> 0 \<Longrightarrow> bit_length n = 0"
  by (simp add: bit_length.simps)

lemma bit_length_pos: "0 < n \<Longrightarrow> bit_length n = Suc (bit_length (n div 2))"
  by (subst bit_length.simps) simp

lemma bit_length_double: "0 < n \<Longrightarrow> bit_length (2 * n) = Suc (bit_length n)"
  by (subst bit_length.simps) simp

lemma bit_length_shift: "0 < n \<Longrightarrow> bit_length (n * 2 ^ k) = bit_length n + k"
proof (induction k)
  case 0
  then show ?case by simp
next
  case (Suc k)
  from Suc.prems have "0 < n * 2 ^ k" by simp
  then have "bit_length (2 * (n * 2 ^ k)) = Suc (bit_length (n * 2 ^ k))"
    by (rule bit_length_double)
  with Suc show ?case by (simp add: mult.assoc mult.left_commute)
qed

lemma bit_length_mono: "m \<le> n \<Longrightarrow> bit_length m \<le> bit_length n"
proof (induction n arbitrary: m rule: bit_length.induct)
  case (1 n)
  show ?case
  proof (cases "m \<le> 0")
    case True
    then show ?thesis by (simp add: bit_length_nonpos)
  next
    case False
    with 1(2) have n: "\<not> n \<le> 0" by simp
    from 1(2) have "m div 2 \<le> n div 2" by (intro zdiv_mono1) simp_all
    from 1(1) [OF n this] False n show ?thesis
      by (simp add: bit_length_pos)
  qed
qed

lemma bit_length_le: "n < 2 ^ k \<Longrightarrow> bit_length n \<le> k"
proof (induction k arbitrary: n)
  case 0
  then show ?case by (simp add: bit_length_nonpos)
next
  case (Suc k)
  show ?case
  proof (cases "n \<le> 0")
    case True
    then show ?thesis by (simp add: bit_length_nonpos)
  next
    case False
    from Suc.prems have "n < 2 ^ k * 2" by simp
    then have "n div 2 < 2 ^ k" by (simp add: div_less_iff_less_mult)
    from Suc.IH [OF this] False show ?thesis by (simp add: bit_length_pos)
  qed
qed

lemma ulp_pos: "0 < ulp n"
  by (simp add: ulp_def)

lemma ulp_dvd_mono: "\<bar>m\<bar> \<le> \<bar>n\<bar> \<Longrightarrow> ulp m dvd ulp n"
  unfolding ulp_def by (intro le_imp_power_dvd diff_le_mono bit_length_mono)

lemma ulp_dvd_ten:
  assumes "\<bar>n\<bar> < 2 ^ 54 * one_ms"
  shows "ulp n dvd ten"
proof -
  from assms have "\<bar>n\<bar> < 2 ^ (54 + 1074)" unfolding one_ms_def power_add .
  then have "bit_length \<bar>n\<bar> \<le> 54 + 1074" by (rule bit_length_le)
  then have b: "bit_length \<bar>n\<bar> - 53 \<le> 1075" by simp
  have e: "(2::int) ^ 1075 = 2 * one_ms" by (simp add: one_ms_def)
  from b have "ulp n dvd 2 ^ 1075" unfolding ulp_def by (rule le_imp_power_dvd)
  then have "ulp n dvd 2 * one_ms" unfolding e .
  then have "ulp n dvd 5 * (2 * one_ms)" by (rule dvd_mult)
  moreover have "ten = 5 * (2 * one_ms)" by (simp add: ten_def)
  ultimately show ?thesis by simp
qed

lemma nearest_even_exact: "ulp n dvd n \<Longrightarrow> nearest_even n = n"
  using ulp_pos [of n] by (simp add: nearest_even_def Let_def)

lemma nearest_even_nonpos:
  assumes "n \<le> 0"
  shows "nearest_even n \<le> 0"
proof -
  define u where "u = ulp n"
  define q where "q = n div u"
  define r where "r = n mod u"
  have u: "0 < u" by (simp add: u_def ulp_pos)
  from assms u have q: "q \<le> 0" unfolding q_def by (simp add: div_nonpos_pos_le0)
  have n: "n = q * u + r" by (simp add: q_def r_def)
  from u have r: "0 \<le> r" "r < u" by (simp_all add: r_def)
  have ne: "nearest_even n = (if 2 * r < u \<or> (2 * r = u \<and> even q) then q * u else (q + 1) * u)"
    by (simp add: nearest_even_def Let_def u_def q_def r_def)
  show ?thesis
  proof (cases "2 * r < u \<or> (2 * r = u \<and> even q)")
    case True
    with ne have "nearest_even n = q * u" by simp
    with q u show ?thesis by (simp add: mult_le_0_iff)
  next
    case False
    have "q \<noteq> 0"
    proof
      assume "q = 0"
      with n assms r have "r = 0" by simp
      with u False show False by simp
    qed
    with q have "q + 1 \<le> 0" by simp
    moreover from False have "nearest_even n = (q + 1) * u" unfolding ne by (rule if_not_P)
    ultimately show ?thesis using u by (simp add: mult_le_0_iff)
  qed
qed

lemma le0_to_number: "n \<le> 0 \<Longrightarrow> le0 (to_number n)"
  by (simp add: to_number_def)

lemma minus10_le0: "n \<le> ten \<Longrightarrow> le0 (minus10 (Finite n))"
  by (simp add: le0_to_number nearest_even_nonpos)

lemma minus10_exact:
  assumes d: "is_double n" and lo: "ten < n" and hi: "n < 2 ^ 54 * one_ms"
  shows "minus10 (Finite n) = Finite (n - ten)" and "is_double (n - ten)"
proof -
  from lo ten_pos have pos: "0 < n - ten" and lt: "n - ten < n" by simp_all
  from pos lt have le: "\<bar>n - ten\<bar> \<le> \<bar>n\<bar>" by simp
  from pos lt hi have "\<bar>n - ten\<bar> < 2 ^ 54 * one_ms" by simp
  then have t: "ulp (n - ten) dvd ten" by (rule ulp_dvd_ten)
  from d have "ulp n dvd n" by (simp add: is_double_def)
  with ulp_dvd_mono [OF le] have "ulp (n - ten) dvd n" by (rule dvd_trans)
  with t have dv: "ulp (n - ten) dvd n - ten" by (rule_tac dvd_diff)
  from d have "\<bar>n\<bar> < 2 ^ 2098" by (simp add: is_double_def)
  with le have small: "\<bar>n - ten\<bar> < 2 ^ 2098" by simp
  from dv small show "is_double (n - ten)" by (simp add: is_double_def)
  from nearest_even_exact [OF dv] pos small show "minus10 (Finite n) = Finite (n - ten)"
    by (simp add: to_number_def)
qed

lemma is_double_ms:
  assumes "\<bar>t\<bar> < 2 ^ 53"
  shows "is_double (ms t)"
proof -
  have a: "\<bar>ms t\<bar> = \<bar>t\<bar> * 2 ^ 1074" by (simp add: ms_def one_ms_def abs_mult)
  from assms have "\<bar>t\<bar> * 2 ^ 1074 < 2 ^ 53 * 2 ^ 1074" by simp
  then have lt: "\<bar>ms t\<bar> < 2 ^ (53 + 1074)" unfolding a power_add .
  then have "bit_length \<bar>ms t\<bar> \<le> 53 + 1074" by (rule bit_length_le)
  then have "bit_length \<bar>ms t\<bar> - 53 \<le> 1074" by simp
  then have "ulp (ms t) dvd 2 ^ 1074" unfolding ulp_def by (rule le_imp_power_dvd)
  then have dv: "ulp (ms t) dvd ms t" by (simp add: ms_def one_ms_def)
  have "(2::int) ^ (53 + 1074) \<le> 2 ^ 2098" by (rule power_increasing) simp_all
  with lt have "\<bar>ms t\<bar> < 2 ^ 2098" by simp
  with dv show ?thesis by (simp add: is_double_def)
qed

lemma is_double_scaled:
  assumes "\<bar>t\<bar> < 2 ^ 53" and "\<bar>t\<bar> * 2 ^ k < 2 ^ 2098"
  shows "is_double (t * 2 ^ k)"
proof -
  have a: "\<bar>t * 2 ^ k\<bar> = \<bar>t\<bar> * 2 ^ k" by (simp add: abs_mult)
  from assms(1) have "\<bar>t\<bar> * 2 ^ k < 2 ^ 53 * 2 ^ k" by simp
  then have "\<bar>t * 2 ^ k\<bar> < 2 ^ (53 + k)" unfolding a power_add .
  then have "bit_length \<bar>t * 2 ^ k\<bar> \<le> 53 + k" by (rule bit_length_le)
  then have "bit_length \<bar>t * 2 ^ k\<bar> - 53 \<le> k" by simp
  then have "ulp (t * 2 ^ k) dvd 2 ^ k" unfolding ulp_def by (rule le_imp_power_dvd)
  then have "ulp (t * 2 ^ k) dvd t * 2 ^ k" by (rule dvd_mult)
  with assms(2) show ?thesis unfolding is_double_def a by simp
qed

lemma ulp_shift:
  assumes "53 \<le> bit_length \<bar>t\<bar>"
  shows "ulp (t * 2 ^ k) = ulp t * 2 ^ k"
proof -
  have "\<not> \<bar>t\<bar> \<le> 0"
  proof
    assume "\<bar>t\<bar> \<le> 0"
    then have "bit_length \<bar>t\<bar> = 0" by (rule bit_length_nonpos)
    with assms show False by simp
  qed
  then have "0 < \<bar>t\<bar>" by simp
  then have "bit_length (\<bar>t\<bar> * 2 ^ k) = bit_length \<bar>t\<bar> + k" by (rule bit_length_shift)
  moreover have "\<bar>t * 2 ^ k\<bar> = \<bar>t\<bar> * 2 ^ k" by (simp add: abs_mult)
  moreover from assms have "bit_length \<bar>t\<bar> + k - 53 = (bit_length \<bar>t\<bar> - 53) + k" by simp
  ultimately show ?thesis by (simp add: ulp_def power_add)
qed

lemma nearest_even_shift:
  assumes "53 \<le> bit_length \<bar>t\<bar>"
  shows "nearest_even (t * 2 ^ k) = nearest_even t * 2 ^ k"
proof -
  define u where "u = ulp t"
  define c :: int where "c = 2 ^ k"
  define q where "q = t div u"
  define r where "r = t mod u"
  have c: "0 < c" by (simp add: c_def)
  have us: "ulp (t * c) = u * c" unfolding c_def u_def using assms by (rule ulp_shift)
  from c have d: "(t * c) div (u * c) = q" by (simp add: q_def)
  from c have m: "(t * c) mod (u * c) = r * c" by (simp add: r_def)
  have two: "2 * (r * c) = (2 * r) * c" by simp
  from c have lt: "(2 * (r * c) < u * c) = (2 * r < u)" unfolding two by simp
  from c have eq: "(2 * (r * c) = u * c) = (2 * r = u)" unfolding two by simp
  have "nearest_even (t * c)
          = (if 2 * r < u \<or> (2 * r = u \<and> even q) then q * (u * c) else (q + 1) * (u * c))"
    unfolding nearest_even_def Let_def us d m lt eq ..
  also have "\<dots> = (if 2 * r < u \<or> (2 * r = u \<and> even q) then q * u else (q + 1) * u) * c"
    by (simp add: mult.assoc)
  also have "\<dots> = nearest_even t * c"
    by (simp add: nearest_even_def Let_def u_def q_def r_def)
  finally show ?thesis unfolding c_def .
qed

lemma minus10_1e18:
  "minus10 (Finite (ms 1000000000000000000)) = Finite (ms 1000000000000000000)"
proof -
  have b: "53 \<le> bit_length \<bar>999999999999999990\<bar>" by code_simp
  have r: "nearest_even 999999999999999990 = 1000000000000000000" by code_simp
  have "ms 1000000000000000000 - ten = 999999999999999990 * 2 ^ 1074"
    by (simp add: ms_def ten_def one_ms_def)
  then have "nearest_even (ms 1000000000000000000 - ten)
               = nearest_even 999999999999999990 * 2 ^ 1074"
    using nearest_even_shift [OF b, of 1074] by simp
  then have n: "nearest_even (ms 1000000000000000000 - ten) = ms 1000000000000000000"
    unfolding r by (simp add: ms_def one_ms_def)
  have "\<not> 2 ^ 2098 \<le> ms 1000000000000000000" and "\<not> ms 1000000000000000000 \<le> - (2 ^ 2098)"
    by (simp_all add: ms_def one_ms_def)
  then show ?thesis unfolding minus10.simps n to_number_def by simp
qed

lemma deadline_tick_pos: "0 < deadline_tick n"
  by (simp add: deadline_tick_def)

lemma deadline_tick_early: "n \<le> ten \<Longrightarrow> deadline_tick n = Suc 0"
proof -
  assume "n \<le> ten"
  then have "(- ten) div ten \<le> (- n) div ten" using ten_pos by (intro zdiv_mono1) simp_all
  moreover have "(- ten) div ten = - (ten div ten)" by (rule dvd_neg_div) simp
  moreover from ten_pos have "ten div ten = 1" by simp
  ultimately have "nat (- ((- n) div ten)) \<le> Suc 0" by simp
  then show ?thesis unfolding deadline_tick_def by (simp add: max_def)
qed

lemma deadline_tick_step: "ten < n \<Longrightarrow> deadline_tick n = Suc (deadline_tick (n - ten))"
proof -
  assume n: "ten < n"
  define q where "q = (- (n - ten)) div ten"
  from n ten_pos have "(- (n - ten)) div ten < 0" by (intro div_neg_pos_less0) simp_all
  then have q1: "q < 0" by (simp add: q_def)
  from ten_pos have "(- n + ten) div ten = (- n) div ten + 1" by (intro div_add_self2) simp
  then have a: "(- n) div ten = q - 1" by (simp add: q_def)
  from q1 have n1: "nat (- (q - 1)) = Suc (nat (- q))" by arith
  from q1 have n2: "Suc 0 \<le> nat (- q)" by arith
  have "max 1 (nat (- (q - 1))) = Suc (max 1 (nat (- q)))"
    unfolding n1 using n2 by (simp add: max_def)
  then show ?thesis unfolding deadline_tick_def a q_def [symmetric] .
qed

lemma deadline_tick_ms: "deadline_tick (ms t) = max 1 (nat (- ((- t) div 10)))"
proof -
  from one_ms_pos have "(- t * one_ms) div (10 * one_ms) = (- t) div 10"
    by (intro div_mult_mult2) simp
  then show ?thesis by (simp add: deadline_tick_def ms_def ten_def)
qed

lemma poll_spec_step:
  assumes "window k = None"
  shows "poll_spec window k (Suc m) = poll_spec window (Suc k) m"
proof -
  have l: "[k..<k + Suc m] = k # [Suc k..<Suc k + m]"
    by (subst upt_rec) simp
  show ?thesis
    unfolding poll_spec_def l using assms by (simp del: upt_Suc split: option.splits)
qed

lemma poll_spec_first: "window k = Some a \<Longrightarrow> 0 < m \<Longrightarrow> poll_spec window k m = (k, Some a)"
  by (cases m) (simp_all add: poll_spec_def upt_conv_Cons del: upt_Suc)

lemma poll_spec_one: "window k = None \<Longrightarrow> poll_spec window k (Suc 0) = (k, None)"
  by (simp add: poll_spec_def)

lemma poll_spec_props:
  assumes "0 < m" and "poll_spec window k m = (j, r)"
  shows "k \<le> j \<and> j < k + m \<and> r = window j \<and> (\<forall>i. k \<le> i \<and> i < j \<longrightarrow> window i = None)
         \<and> (r = None \<longrightarrow> j = k + m - 1)"
proof (cases "find (\<lambda>j. window j \<noteq> None) [k..<k + m]")
  case None
  then have all: "\<forall>i. k \<le> i \<and> i < k + m \<longrightarrow> window i = None"
    by (simp add: find_None_iff)
  from None assms(2) have j: "j = k + m - 1" and r: "r = None"
    by (simp_all add: poll_spec_def)
  from assms(1) j have kj: "k \<le> j" and jm: "j < k + m" by simp_all
  from all jm have a: "\<forall>i. k \<le> i \<and> i < j \<longrightarrow> window i = None" by simp
  from all kj jm have "window j = None" by simp
  with r have b: "r = window j" by simp
  from j have c: "r = None \<longrightarrow> j = k + m - 1" by simp
  show ?thesis by (intro conjI kj jm b a c)
next
  case (Some x)
  with assms(2) have j: "j = x" and r: "r = window x"
    by (auto simp: poll_spec_def)
  from Some obtain i where i: "i < length [k..<k + m]" "window ([k..<k + m] ! i) \<noteq> None"
      "x = [k..<k + m] ! i" "\<forall>i' < i. \<not> window ([k..<k + m] ! i') \<noteq> None"
    unfolding find_Some_iff by blast
  from i(1) have im: "i < m" by simp
  with i(3) have x: "x = k + i" by simp
  have before: "window i' = None" if "k \<le> i'" "i' < x" for i'
  proof -
    from that x have lt: "i' - k < i" by simp
    with im that have "[k..<k + m] ! (i' - k) = i'" by simp
    moreover from i(4) lt have "\<not> window ([k..<k + m] ! (i' - k)) \<noteq> None" by blast
    ultimately show ?thesis by simp
  qed
  from i(2) i(3) have some: "window x \<noteq> None" by simp
  from x j have kj: "k \<le> j" by simp
  from x j im have jm: "j < k + m" by simp
  from r j have b: "r = window j" by simp
  from before j have a: "\<forall>i. k \<le> i \<and> i < j \<longrightarrow> window i = None" by simp
  from some r have c: "r = None \<longrightarrow> j = k + m - 1" by auto
  show ?thesis by (intro conjI kj jm b a c)
qed

lemma interval_ticks_finite:
  assumes "is_double n" and "n < 2 ^ 54 * one_ms"
  shows "interval_ticks window (Finite n) k = Some (poll_spec window k (deadline_tick n))"
  using assms
proof (induction "nat n" arbitrary: n k rule: less_induct)
  case less
  show ?case
  proof (cases "window k")
    case (Some a)
    then show ?thesis
      by (subst interval_ticks.simps) (simp add: poll_spec_first deadline_tick_pos)
  next
    case None
    show ?thesis
    proof (cases "n \<le> ten")
      case True
      then have "le0 (minus10 (Finite n))" by (rule minus10_le0)
      with None True show ?thesis
        by (subst interval_ticks.simps)
           (simp add: poll_spec_one deadline_tick_early del: minus10.simps)
    next
      case False
      then have lo: "ten < n" by simp
      note ex = minus10_exact [OF less.prems(1) lo less.prems(2)]
      from lo ten_pos have pos: "0 < n - ten" and lt: "n - ten < n" by simp_all
      from pos lt have "nat (n - ten) < nat n" by simp
      moreover from lt less.prems(2) have "n - ten < 2 ^ 54 * one_ms" by simp
      ultimately have IH:
        "interval_ticks window (Finite (n - ten)) (Suc k)
           = Some (poll_spec window (Suc k) (deadline_tick (n - ten)))"
        using ex(2) by (intro less.hyps)
      from lo have step: "deadline_tick n = Suc (deadline_tick (n - ten))"
        by (rule deadline_tick_step)
      from None have spec:
        "poll_spec window k (deadline_tick n) = poll_spec window (Suc k) (deadline_tick (n - ten))"
        unfolding step by (rule poll_spec_step)
      from pos have "\<not> le0 (Finite (n - ten))" by simp
      with None show ?thesis
        by (subst interval_ticks.simps) (simp add: ex(1) IH spec del: minus10.simps)
    qed
  qed
qed

lemma interval_ticks_stuck:
  assumes "interval_ticks window rest k = Some r"
  shows "\<not> ((\<forall>j. window j = None) \<and> minus10 rest = rest \<and> \<not> le0 rest)"
proof (rule interval_ticks.raw_induct
        [where P = "\<lambda>window rest k r.
                      \<not> ((\<forall>j. window j = None) \<and> minus10 rest = rest \<and> \<not> le0 rest)",
         OF _ assms], goal_cases)
  case (1 f window rest k r)
  show ?case
  proof
    assume A: "(\<forall>j. window j = None) \<and> minus10 rest = rest \<and> \<not> le0 rest"
    then have "minus10 rest = rest" and "\<not> le0 (minus10 rest)" and "window k = None"
      by simp_all
    with 1(2) have "f window rest (Suc k) = Some r" by simp
    from 1(1) [OF this] A show False by blast
  qed
qed

lemma getAzguardObject_hangs:
  assumes "\<forall>k. window k = None" and "minus10 timeout = timeout" and "\<not> le0 timeout"
  shows "getAzguardObject window timeout = None"
proof (cases "getAzguardObject window timeout")
  case None
  then show ?thesis .
next
  case (Some r)
  with interval_ticks_stuck [of window timeout 1 r] assms show ?thesis
    by (simp add: getAzguardObject_def)
qed

lemma getAzguardObject_finite:
  assumes "is_double n" and "n < 2 ^ 54 * one_ms"
  shows "getAzguardObject window (Finite n) = Some (poll_spec window 1 (deadline_tick n))"
  unfolding getAzguardObject_def using assms by (simp add: interval_ticks_finite)

lemma getAzguardObject_early:
  assumes "n \<le> ten"
  shows "getAzguardObject window (Finite n) = Some (1, window 1)"
proof -
  from assms have "le0 (minus10 (Finite n))" by (rule minus10_le0)
  then show ?thesis
    unfolding getAzguardObject_def
    by (subst interval_ticks.simps) (simp add: Let_def del: minus10.simps split: option.splits)
qed

lemma timeout_25_5_double: "is_double timeout_25_5"
  unfolding timeout_25_5_def by (rule is_double_scaled) simp_all

lemma timeout_25_5_small: "timeout_25_5 < 2 ^ 54 * one_ms"
  by (simp add: timeout_25_5_def one_ms_def)

lemma timeout_25_5_deadline: "deadline_tick timeout_25_5 = 3"
proof -
  define c :: int where "c = 2 ^ 1073"
  have c: "0 < c" by (simp add: c_def)
  have t: "- timeout_25_5 = (- 51) * c" by (simp add: timeout_25_5_def c_def)
  have te: "ten = 20 * c" by (simp add: ten_def one_ms_def c_def)
  from c have "((- 51) * c) div (20 * c) = (- 51) div 20" by (intro div_mult_mult2) simp
  then have "(- timeout_25_5) div ten = - 3" unfolding t te by simp
  then show ?thesis by (simp add: deadline_tick_def)
qed

text \<open>
  C2, as the code has it.  For a timeout that is a double below \<^verbatim>\<open>2^54\<close> ms, with or
  without a fraction, the poll always resolves, at some tick \<open>k\<close> between 1 and
  \<open>deadline_tick n\<close>, that is the timeout divided by 10 ms, rounded up, and at least 1:
  it resolves with what \<^verbatim>\<open>window.azguard\<close> holds at tick \<open>k\<close>, no earlier tick saw the
  object, and it resolves with \<^verbatim>\<open>undefined\<close> only at the last tick.  For a timeout of
  at most 10 ms, so for every timeout of 0 or less, it resolves at the first tick with
  what \<^verbatim>\<open>window.azguard\<close> holds then, and there is no second check.  For the timeouts
  \<open>Infinity\<close> and \<open>NaN\<close> a poll that never sees the object never resolves.
\<close>

theorem getAzguardObject_resolves:
  assumes "is_double n" and "n < 2 ^ 54 * one_ms"
  shows "(\<exists>k r. getAzguardObject window (Finite n) = Some (k, r)
        \<and> 1 \<le> k \<and> k \<le> deadline_tick n \<and> r = window k
        \<and> (\<forall>j. 1 \<le> j \<and> j < k \<longrightarrow> window j = None)
        \<and> (r = None \<longrightarrow> k = deadline_tick n))
   \<and> (n \<le> ten \<longrightarrow> getAzguardObject window (Finite n) = Some (1, window 1))
   \<and> ((\<forall>k. window k = None) \<longrightarrow>
        getAzguardObject window PosInfinity = None \<and> getAzguardObject window NaN = None)"
proof -
  obtain j r where jr: "poll_spec window 1 (deadline_tick n) = (j, r)"
    by (cases "poll_spec window 1 (deadline_tick n)")
  have g: "getAzguardObject window (Finite n) = Some (j, r)"
    unfolding getAzguardObject_finite [OF assms] jr ..
  note p = poll_spec_props [OF deadline_tick_pos jr]
  have p1: "1 \<le> j" by (rule p [THEN conjunct1])
  have "j < 1 + deadline_tick n" by (rule p [THEN conjunct2, THEN conjunct1])
  then have p2: "j \<le> deadline_tick n" by simp
  have p3: "r = window j" by (rule p [THEN conjunct2, THEN conjunct2, THEN conjunct1])
  have p4: "\<forall>i. 1 \<le> i \<and> i < j \<longrightarrow> window i = None"
    by (rule p [THEN conjunct2, THEN conjunct2, THEN conjunct2, THEN conjunct1])
  have "r = None \<longrightarrow> j = 1 + deadline_tick n - 1"
    by (rule p [THEN conjunct2, THEN conjunct2, THEN conjunct2, THEN conjunct2])
  then have p5: "r = None \<longrightarrow> j = deadline_tick n" by simp
  have first: "\<exists>k r. getAzguardObject window (Finite n) = Some (k, r)
        \<and> 1 \<le> k \<and> k \<le> deadline_tick n \<and> r = window k
        \<and> (\<forall>j. 1 \<le> j \<and> j < k \<longrightarrow> window j = None)
        \<and> (r = None \<longrightarrow> k = deadline_tick n)"
    by (intro exI [of _ j] exI [of _ r] conjI g p1 p2 p3 p4 p5)
  have second: "n \<le> ten \<longrightarrow> getAzguardObject window (Finite n) = Some (1, window 1)"
    by (intro impI getAzguardObject_early)
  have third: "(\<forall>k. window k = None) \<longrightarrow>
        getAzguardObject window PosInfinity = None \<and> getAzguardObject window NaN = None"
    by (simp add: getAzguardObject_hangs)
  show ?thesis by (intro conjI first second third)
qed

theorem getAzguardObject_resolves_witness:
  "is_double timeout_25_5 \<and> timeout_25_5 < 2 ^ 54 * one_ms
   \<and> getAzguardObject never_present (Finite timeout_25_5) = Some (3, None)
   \<and> is_double (ms (- 5)) \<and> ms (- 5) < 2 ^ 54 * one_ms
   \<and> getAzguardObject always_present (Finite (ms (- 5))) = Some (1, Some wallet_1_2_0)
   \<and> getAzguardObject never_present PosInfinity = None
   \<and> getAzguardObject never_present NaN = None"
proof -
  note d1 = timeout_25_5_double
  note s1 = timeout_25_5_small
  note T = getAzguardObject_resolves [of timeout_25_5 never_present, OF d1 s1]
  from T [THEN conjunct1] obtain k r
    where g: "getAzguardObject never_present (Finite timeout_25_5) = Some (k, r)"
      and rk: "r = never_present k"
      and last: "r = None \<longrightarrow> k = deadline_tick timeout_25_5"
    by (elim exE conjE)
  from rk have "r = None" by (simp add: never_present_def)
  with last g have a: "getAzguardObject never_present (Finite timeout_25_5) = Some (3, None)"
    by (simp add: timeout_25_5_deadline)
  have d2: "is_double (ms (- 5))" by (rule is_double_ms) simp
  have "ms (- 5) < 0" using one_ms_pos by (simp add: ms_def)
  with one_ms_pos have s2: "ms (- 5) < 2 ^ 54 * one_ms" and e2: "ms (- 5) \<le> ten"
    by (simp_all add: ten_def)
  have "ms (- 5) \<le> ten \<longrightarrow>
          getAzguardObject always_present (Finite (ms (- 5))) = Some (1, always_present 1)"
    by (rule getAzguardObject_resolves
              [of "ms (- 5)" always_present, OF d2 s2, THEN conjunct2, THEN conjunct1])
  with e2 have b: "getAzguardObject always_present (Finite (ms (- 5))) = Some (1, Some wallet_1_2_0)"
    by (simp add: always_present_def)
  have "(\<forall>k. never_present k = None) \<longrightarrow>
          getAzguardObject never_present PosInfinity = None
          \<and> getAzguardObject never_present NaN = None"
    by (rule T [THEN conjunct2, THEN conjunct2])
  then have c: "getAzguardObject never_present PosInfinity = None"
    and d: "getAzguardObject never_present NaN = None"
    by (simp_all add: never_present_def)
  show ?thesis by (intro conjI d1 s1 a d2 s2 b c d)
qed

text \<open>
  Against C2 as the specification words it.  The timeout is rounded up, not down: with
  a timeout of 25 ms and no object the poll gives up at the third tick (30 ms), not at
  the second (20 ms).  And the poll does not resolve for every timeout: with the timeout
  \<open>Infinity\<close> and no object it never resolves, and neither with the timeout of
  \<^verbatim>\<open>1e18\<close> ms, a double that \<^verbatim>\<open>rest -= 10\<close> leaves as it is, the difference being
  rounded back to it.
\<close>

theorem getAzguardObject_counterexample:
  "getAzguardObject never_present (Finite (ms 25)) = Some (3, None)
   \<and> getAzguardObject never_present PosInfinity = None
   \<and> is_double (ms 1000000000000000000)
   \<and> minus10 (Finite (ms 1000000000000000000)) = Finite (ms 1000000000000000000)
   \<and> getAzguardObject never_present (Finite (ms 1000000000000000000)) = None"
proof -
  have "is_double (ms 25)" by (rule is_double_ms) simp
  moreover have "ms 25 < 2 ^ 54 * one_ms" using one_ms_pos by (simp add: ms_def)
  ultimately have "getAzguardObject never_present (Finite (ms 25))
                     = Some (poll_spec never_present 1 (deadline_tick (ms 25)))"
    by (rule getAzguardObject_finite)
  moreover have "deadline_tick (ms 25) = 3" by (simp add: deadline_tick_ms)
  moreover have "poll_spec never_present 1 3 = (3, None)" by code_simp
  ultimately have a: "getAzguardObject never_present (Finite (ms 25)) = Some (3, None)"
    by simp
  have n: "\<forall>k. never_present k = None" by (simp add: never_present_def)
  from n have b: "getAzguardObject never_present PosInfinity = None"
    by (rule getAzguardObject_hangs) simp_all
  have c: "is_double (ms 1000000000000000000)"
  proof -
    have "ms 1000000000000000000 = 3814697265625 * 2 ^ 1092"
      by (simp add: ms_def one_ms_def)
    moreover have "is_double (3814697265625 * 2 ^ 1092)"
      by (rule is_double_scaled) simp_all
    ultimately show ?thesis by simp
  qed
  note d = minus10_1e18
  have "0 < ms 1000000000000000000" using one_ms_pos by (simp add: ms_def)
  then have nl: "\<not> le0 (Finite (ms 1000000000000000000))" by simp
  have e: "getAzguardObject never_present (Finite (ms 1000000000000000000)) = None"
    by (rule getAzguardObject_hangs [OF n d nl])
  show ?thesis by (intro conjI a b c d e)
qed


section \<open>What the client's methods do, in closed form\<close>

lemma snapshot_of_trace [simp]: "snapshot_of (w\<lparr>trace := t\<rparr>) = snapshot_of w"
  by (simp add: snapshot_of_def get_connected_def get_accounts_def get_permissions_def)

lemma dispatch_call_handler:
  "dispatch (call_handler ev) hs p w
     = (Returned, w\<lparr>trace := trace w @ notified ev p hs (snapshot_of w)\<rparr>)"
proof (induction hs arbitrary: w)
  case Nil
  show ?case by (simp add: dispatch_Nil notified_def)
next
  case (Cons h hs)
  have "snd (call_handler ev h p w) = w\<lparr>trace := trace w @ [(Handler_call ev h p, snapshot_of w)]\<rparr>"
    by (simp add: call_handler_def emit_def)
  then show ?case
    by (simp add: dispatch_Cons Cons.IH notified_def)
qed


lemma onSessionClosed_eq:
  "onSessionClosed w =
     (Returned,
      w\<lparr>session := None,
        localStorage := (localStorage w)(storage_key (scope w) := None),
        trace := trace w @ notified Disconnected Void (onDisconnected w) (snapshot_of w)
                 @ [(RemoveItem (storage_key (scope w)),
                     \<lparr>seen_connected = False, seen_accounts = [], seen_permissions = [],
                      seen_stored = localStorage w (storage_key (scope w))\<rparr>)]\<rparr>)"
  by (simp add: onSessionClosed_def dispatch_call_handler removeItem_def emit_def
        snapshot_of_def get_connected_def get_accounts_def get_permissions_def)

lemma or_else_Inr: "or_else (Inr a) b = (if a then Inr True else b)"
  by (simp add: or_else_def)

lemma or_else_Inr_Inr: "or_else (Inr a) (Inr b) = Inr (a \<or> b)"
  by (simp add: or_else_def)

lemma some_from_Inr:
  assumes "\<forall>j < length xs. f (xs ! j) (i + j) = Inr (g (xs ! j) (i + j))"
  shows "some_from i f xs = Inr (\<exists>j < length xs. g (xs ! j) (i + j))"
  using assms
proof (induction xs arbitrary: i)
  case Nil
  show ?case by simp
next
  case (Cons x xs)
  from Cons.prems have hd: "f x i = Inr (g x i)" by fastforce
  have "\<forall>j < length xs. f (xs ! j) (Suc i + j) = Inr (g (xs ! j) (Suc i + j))"
  proof (intro allI impI)
    fix j assume "j < length xs"
    then have "Suc j < length (x # xs)" by simp
    with Cons.prems have "f ((x # xs) ! Suc j) (i + Suc j) = Inr (g ((x # xs) ! Suc j) (i + Suc j))"
      by blast
    then show "f (xs ! j) (Suc i + j) = Inr (g (xs ! j) (Suc i + j))" by simp
  qed
  from Cons.IH [OF this]
  have tl: "some_from (Suc i) f xs = Inr (\<exists>j < length xs. g (xs ! j) (Suc i + j))" .
  have ex: "(\<exists>j < length (x # xs). g ((x # xs) ! j) (i + j))
            = (g x i \<or> (\<exists>j < length xs. g (xs ! j) (Suc i + j)))"
  proof
    assume "\<exists>j < length (x # xs). g ((x # xs) ! j) (i + j)"
    then obtain j where j: "j < length (x # xs)" "g ((x # xs) ! j) (i + j)" by blast
    show "g x i \<or> (\<exists>j < length xs. g (xs ! j) (Suc i + j))"
    proof (cases j)
      case 0
      with j show ?thesis by simp
    next
      case (Suc j')
      with j have "j' < length xs" "g (xs ! j') (Suc i + j')" by simp_all
      then show ?thesis by blast
    qed
  next
    assume "g x i \<or> (\<exists>j < length xs. g (xs ! j) (Suc i + j))"
    then show "\<exists>j < length (x # xs). g ((x # xs) ! j) (i + j)"
    proof
      assume "g x i"
      then have "0 < length (x # xs) \<and> g ((x # xs) ! 0) (i + 0)" by simp
      then show ?thesis by blast
    next
      assume "\<exists>j < length xs. g (xs ! j) (Suc i + j)"
      then obtain j where "j < length xs" "g (xs ! j) (Suc i + j)" by blast
      then have "Suc j < length (x # xs) \<and> g ((x # xs) ! Suc j) (i + Suc j)" by simp
      then show ?thesis by blast
    qed
  qed
  show ?case unfolding ex by (simp add: hd tl or_else_Inr_Inr)
qed

lemma some_differs_at:
  assumes "length l = length l'"
  shows "some (differs_at (Some l')) l = Inr (l \<noteq> l')"
proof -
  have "\<forall>j < length l. differs_at (Some l') (l ! j) (0 + j) = Inr (l ! j \<noteq> l' ! (0 + j))"
    using assms by (simp add: differs_at_def at_index_def)
  from some_from_Inr [of l "differs_at (Some l')" 0 "\<lambda>c j. c \<noteq> l' ! j", OF this]
  have "some (differs_at (Some l')) l = Inr (\<exists>j < length l. l ! j \<noteq> l' ! j)"
    by (simp add: some_def)
  moreover from assms have "(\<exists>j < length l. l ! j \<noteq> l' ! j) = (l \<noteq> l')"
    by (auto simp: list_eq_iff_nth_eq)
  ultimately show ?thesis by simp
qed

lemma field_differs:
  "or_else (Inr (optional_length xs \<noteq> optional_length ys)) (optional_some (differs_at ys) xs)
     = Inr (listed xs \<noteq> listed ys)"
proof (cases "optional_length xs = optional_length ys")
  case False
  then have "listed xs \<noteq> listed ys"
    by (auto simp: optional_length_def listed_def split: option.splits)
  with False show ?thesis by (simp add: or_else_Inr)
next
  case True
  show ?thesis
  proof (cases xs)
    case None
    with True show ?thesis
      by (cases ys) (simp_all add: or_else_Inr optional_some_def optional_length_def listed_def)
  next
    case xs: (Some l)
    show ?thesis
    proof (cases ys)
      case None
      with True xs have "l = []" by (simp add: optional_length_def)
      with None xs show ?thesis
        by (simp add: or_else_Inr optional_some_def optional_length_def listed_def some_def)
    next
      case (Some l')
      with True xs have len: "length l = length l'" by (simp add: optional_length_def)
      from some_differs_at [OF len] len xs Some show ?thesis
        by (simp add: or_else_Inr optional_some_def optional_length_def listed_def)
    qed
  qed
qed

lemma or_else_assoc: "or_else (or_else a b) c = or_else a (or_else b c)"
  by (cases a) (auto simp: or_else_def)

lemma permission_differs_eq:
  assumes "at_index new i = Some q"
  shows "permission_differs new p i = Inr (grant_differs p q)"
proof -
  let ?c = "or_else (Inr (optional_length (chains p) \<noteq> optional_length (chains q)))
                    (optional_some (differs_at (chains q)) (chains p))"
  let ?m = "or_else (Inr (optional_length (methods p) \<noteq> optional_length (methods q)))
                    (optional_some (differs_at (methods q)) (methods p))"
  let ?e = "or_else (Inr (optional_length (events p) \<noteq> optional_length (events q)))
                    (optional_some (differs_at (events q)) (events p))"
  have "permission_differs new p i = or_else ?c (or_else ?m ?e)"
    using assms by (simp add: permission_differs_def or_else_assoc)
  also have "\<dots> = Inr (grant_differs p q)"
    unfolding field_differs by (simp add: or_else_Inr_Inr grant_differs_def)
  finally show ?thesis .
qed

lemma permissionsChanged_eq: "permissionsChanged old new = Inr (permissions_differ_spec old new)"
proof (cases "length old = length new")
  case False
  then show ?thesis by (simp add: permissionsChanged_def permissions_differ_spec_def or_else_Inr)
next
  case True
  have "\<forall>j < length old. permission_differs new (old ! j) (0 + j)
                           = Inr (grant_differs (old ! j) (new ! (0 + j)))"
    using True by (simp add: permission_differs_eq at_index_def)
  from some_from_Inr [of old "permission_differs new" 0 "\<lambda>p j. grant_differs p (new ! j)", OF this]
  have "some (permission_differs new) old = Inr (\<exists>j < length old. grant_differs (old ! j) (new ! j))"
    by (simp add: some_def)
  with True show ?thesis
    by (simp add: permissionsChanged_def permissions_differ_spec_def or_else_Inr)
qed



lemma accountsChanged_eq: "accountsChanged old new = Inr (old \<noteq> new)"
proof (cases "length old = length new")
  case False
  then have "old \<noteq> new" by auto
  with False show ?thesis by (simp add: accountsChanged_def or_else_Inr)
next
  case True
  have "\<forall>j < length old. (\<lambda>a i. Inr (Some a \<noteq> at_index new i)) (old ! j) (0 + j)
                           = Inr (old ! j \<noteq> new ! (0 + j))"
    using True by (simp add: at_index_def)
  from some_from_Inr [of old "\<lambda>a i. Inr (Some a \<noteq> at_index new i)" 0 "\<lambda>a j. a \<noteq> new ! j",
                      OF this]
  have "some (\<lambda>a i. Inr (Some a \<noteq> at_index new i)) old
          = Inr (\<exists>j < length old. old ! j \<noteq> new ! j)"
    by (simp add: some_def)
  moreover from True have "(\<exists>j < length old. old ! j \<noteq> new ! j) = (old \<noteq> new)"
    by (auto simp: list_eq_iff_nth_eq)
  ultimately show ?thesis using True by (simp add: accountsChanged_def or_else_Inr)
qed

lemma dispatch_if:
  "(if b then dispatch (call_handler ev) hs p w else (Returned, w))
     = (Returned, w\<lparr>trace := trace w @ (if b then notified ev p hs (snapshot_of w) else [])\<rparr>)"
  by (simp add: dispatch_call_handler)

lemma onSessionUpdated_eq:
  "onSessionUpdated s w =
     (Returned,
      w\<lparr>session := Some s,
        trace := trace w
          @ (if permissions_differ_spec (get_permissions w) (permissions s)
             then notified PermissionsChanged (Permissions (permissions s)) (onPermissionsChanged w)
                    (snapshot_of (w\<lparr>session := Some s\<rparr>))
             else [])
          @ (if get_accounts w \<noteq> accounts s
             then notified AccountsChanged (Accounts (accounts s)) (onAccountsChanged w)
                    (snapshot_of (w\<lparr>session := Some s\<rparr>))
             else [])\<rparr>)"
proof -
  have p: "get_permissions (w\<lparr>session := Some s\<rparr>) = permissions s"
    and a: "get_accounts (w\<lparr>session := Some s, trace := t\<rparr>) = accounts s" for t
    by (simp_all add: get_permissions_def get_accounts_def)
  show ?thesis
    unfolding onSessionUpdated_def permissionsChanged_eq accountsChanged_eq
    by (simp add: Let_def dispatch_if p a split del: if_split cong: if_cong)
qed


section \<open>Every interleaving: the channel is bound before a session is used\<close>

lemma connect_settled_eq:
  "connect_settled (Inr s) w =
     (Inr (),
      w\<lparr>session := Some s,
        localStorage := (localStorage w)(storage_key (scope w) \<mapsto> id' s),
        trace := trace w
          @ [(SetItem (storage_key (scope w)) (id' s), snapshot_of (w\<lparr>session := Some s\<rparr>))]
          @ notified Connected Void (onConnected w)
              (snapshot_of (w\<lparr>session := Some s,
                 localStorage := (localStorage w)(storage_key (scope w) \<mapsto> id' s)\<rparr>))\<rparr>)"
  by (simp add: connect_settled_def Let_def setItem_def emit_def dispatch_call_handler
        snapshot_of_def get_connected_def get_accounts_def get_permissions_def)

lemma connect_settled_frame:
  "rpc (snd (connect_settled r w)) = rpc w \<and> listeners (snd (connect_settled r w)) = listeners w"
  by (cases r) (simp_all add: connect_settled_eq, simp add: connect_settled_def)

lemma connect_settled_system:
  "phase (snd (connect_settled r s)) = phase s
   \<and> pending_connects (snd (connect_settled r s)) = pending_connects s"
  by (cases r) (simp_all add: connect_settled_eq, simp add: connect_settled_def)

lemma unbound_invariant_create: "unbound_invariant (create sc storage cbs)"
  by (simp add: unbound_invariant_def create_def)

lemma phase_update_registry [simp]: "phase (update_registry f ev h s) = phase s"
  by (cases ev) simp_all

lemma rpc_update_registry [simp]: "rpc (update_registry f ev h s) = rpc s"
  by (cases ev) simp_all

lemma session_update_registry [simp]: "session (update_registry f ev h s) = session s"
  by (cases ev) simp_all

lemma listeners_update_registry [simp]: "listeners (update_registry f ev h s) = listeners s"
  by (cases ev) simp_all

lemma pending_update_registry [simp]:
  "pending_connects (update_registry f ev h s) = pending_connects s"
  by (cases ev) simp_all

lemma unbound_invariant_step:
  assumes "unbound_invariant s"
  shows "unbound_invariant (step pv s i)"
proof (cases i)
  case (Detected azguard)
  with assms show ?thesis
    by (auto simp: unbound_invariant_def init_detected_def Let_def rpc_on_def emit_def
          split: option.splits)
next
  case (Get_session_settled response)
  with assms show ?thesis
    by (auto simp: unbound_invariant_def init_session_settled_def split: phase.splits sum.splits)
next
  case (Push_session_updated new_session)
  with assms show ?thesis
    by (auto simp: unbound_invariant_def onSessionUpdated_eq listening_def)
next
  case Push_session_closed
  with assms show ?thesis
    by (auto simp: unbound_invariant_def onSessionClosed_eq listening_def)
next
  case (Call_connect m r o)
  with assms show ?thesis
    by (auto simp: unbound_invariant_def connect_request_def emit_def split: option.splits)
next
  case (Connect_settled response)
  with assms show ?thesis
    using connect_settled_frame [of response "s\<lparr>pending_connects := pending_connects s - 1\<rparr>"]
      connect_settled_system [of response "s\<lparr>pending_connects := pending_connects s - 1\<rparr>"]
    by (auto simp: unbound_invariant_def)
next
  case Call_disconnect
  with assms show ?thesis
    by (auto simp: unbound_invariant_def disconnect_def emit_def split: option.splits)
next
  case (Call_execute operations)
  with assms show ?thesis
    by (auto simp: unbound_invariant_def execute_def emit_def split: option.splits)
next
  case Call_getWalletInfo
  with assms show ?thesis
    by (auto simp: unbound_invariant_def getWalletInfo_def emit_def split: option.splits)
next
  case (Call_addHandler ev h)
  with assms show ?thesis
    by (auto simp: unbound_invariant_def)
next
  case (Call_removeHandler ev h)
  with assms show ?thesis
    by (auto simp: unbound_invariant_def)
qed

lemma unbound_invariant_foldl:
  "unbound_invariant s \<Longrightarrow> unbound_invariant (foldl (step pv) s inputs)"
  by (induction inputs arbitrary: s) (simp_all add: unbound_invariant_step)

lemma unbound_invariant_run: "unbound_invariant (run pv inputs (create sc storage cbs))"
  by (simp add: run_def unbound_invariant_foldl unbound_invariant_create)

lemma ready_session_rpc:
  assumes "s = run pv inputs (create sc storage cbs)" and "phase s = Ready"
    and "session s = Some sess"
  shows "\<exists>client. rpc s = Some client"
proof -
  from assms(1) have "unbound_invariant s" by (simp add: unbound_invariant_run)
  with assms(2,3) show ?thesis by (auto simp: unbound_invariant_def)
qed


section \<open>The sample clients\<close>

lemma system_connected_fields:
  "phase system_connected = Ready"
  "rpc system_connected = Some (Channel 0)"
  "session system_connected = Some session_1"
  "scope system_connected = ''default''"
  "onDisconnected system_connected = [1, 2]"
  "onPermissionsChanged system_connected = [3]"
  "onAccountsChanged system_connected = [4]"
  "localStorage system_connected ''azguard:session:default'' = Some ''sid1''"
  by code_simp+


lemma system_installed_fields:
  "phase system_installed = Ready"
  "rpc system_installed = Some (Channel 0)"
  "session system_installed = None"
  by code_simp+

lemma system_not_installed_fields:
  "phase system_not_installed = Ready"
  "rpc system_not_installed = None"
  "session system_not_installed = None"
  by code_simp+

lemma system_init_window_fields:
  "phase system_init_window = Restoring (Channel 0)"
  "rpc system_init_window = None"
  "session system_init_window = Some session_1"
  by code_simp+


section \<open>execute and disconnect\<close>

text \<open>
  C6.  \<open>execute\<close> fails with the "not installed" error when no channel is bound and with
  the "not connected" error when a channel is bound and no session is held, and in both
  cases the page, its trace included, is unchanged: no request is made.  Otherwise it
  makes one request, \<^verbatim>\<open>execute\<close> with the identifier of the current session and the
  operations as given, and returns what the channel answers.
\<close>

theorem execute_outcomes:
  "(rpc w = None \<longrightarrow>
      execute operations response w = (Inl (Error ''Azguard Wallet is not installed''), w))
   \<and> (rpc w \<noteq> None \<and> session w = None \<longrightarrow>
      execute operations response w = (Inl (Error ''Azguard Wallet is not connected''), w))
   \<and> (rpc w = Some client \<and> session w = Some s \<longrightarrow>
      execute operations response w =
        (response,
         w\<lparr>trace := trace w
             @ [(Rpc_request client (Execute (id' s) operations), snapshot_of w)]\<rparr>))"
  by (auto simp: execute_def emit_def)

theorem execute_outcomes_witness:
  "execute [Other_operation ''register_contract''] (Inr [Ok ''0x1'']) system_not_installed
     = (Inl (Error ''Azguard Wallet is not installed''), system_not_installed)
   \<and> execute [Other_operation ''register_contract''] (Inr [Ok ''0x1'']) system_installed
     = (Inl (Error ''Azguard Wallet is not connected''), system_installed)
   \<and> execute [Other_operation ''register_contract''] (Inr [Ok ''0x1'', Skipped]) system_connected
     = (Inr [Ok ''0x1'', Skipped],
        system_connected\<lparr>trace := trace system_connected
          @ [(Rpc_request (Channel 0) (Execute ''sid1'' [Other_operation ''register_contract'']),
              snapshot_of system_connected)]\<rparr>)"
  using execute_outcomes [of system_not_installed "[Other_operation ''register_contract'']"
          "Inr [Ok ''0x1'']" "Channel 0" session_1]
    execute_outcomes [of system_installed "[Other_operation ''register_contract'']"
          "Inr [Ok ''0x1'']" "Channel 0" session_1]
    execute_outcomes [of system_connected "[Other_operation ''register_contract'']"
          "Inr [Ok ''0x1'', Skipped]" "Channel 0" session_1]
  by (simp add: system_not_installed_fields system_installed_fields system_connected_fields
        session_1_def)

text \<open>
  C8.  On a client that \<open>create\<close> has handed out, \<open>disconnect\<close> does nothing at all when
  no session is held; when a session is held it makes one request, \<^verbatim>\<open>close_session\<close>
  with the identifier of that session, and changes nothing but the trace: the session,
  what the three getters return and \<^verbatim>\<open>localStorage\<close> are as before.
\<close>

theorem disconnect_only_requests:
  assumes "s = run pv inputs (create sc storage cbs)" and "phase s = Ready"
  shows "(session s = None \<longrightarrow> disconnect response s = (Inr (), s))
   \<and> (\<forall>sess. session s = Some sess \<longrightarrow>
        (\<exists>client. rpc s = Some client
           \<and> disconnect response s =
               (response,
                s\<lparr>trace := trace s
                   @ [(Rpc_request client (Close_session (id' sess)), snapshot_of s)]\<rparr>)))
   \<and> session (snd (disconnect response s)) = session s
   \<and> get_connected (snd (disconnect response s)) = get_connected s
   \<and> get_accounts (snd (disconnect response s)) = get_accounts s
   \<and> get_permissions (snd (disconnect response s)) = get_permissions s
   \<and> localStorage (snd (disconnect response s)) = localStorage s"
proof (cases "session s")
  case None
  then show ?thesis by (simp add: disconnect_def)
next
  case (Some sess)
  from ready_session_rpc [OF assms Some] obtain client where "rpc s = Some client" ..
  with Some show ?thesis
    by (simp add: disconnect_def emit_def get_connected_def get_accounts_def get_permissions_def)
qed

theorem disconnect_only_requests_witness:
  "disconnect (Inr ()) system_installed = (Inr (), system_installed)
   \<and> disconnect (Inr ()) system_connected
       = (Inr (),
          system_connected\<lparr>trace := trace system_connected
            @ [(Rpc_request (Channel 0) (Close_session ''sid1''), snapshot_of system_connected)]\<rparr>)
   \<and> session (snd (disconnect (Inr ()) system_connected)) = Some session_1
   \<and> localStorage (snd (disconnect (Inr ()) system_connected)) ''azguard:session:default''
       = Some ''sid1''"
  using disconnect_only_requests [OF system_installed_def system_installed_fields(1), of "Inr ()"]
    disconnect_only_requests [OF system_connected_def system_connected_fields(1), of "Inr ()"]
  by (simp add: system_installed_fields system_connected_fields session_1_def)


section \<open>Reconciliation of the wallet's pushes\<close>






section \<open>The channel is bound whenever a caller can use a session\<close>

text \<open>
  C9, as the code has it.  In every state that a client reaches after \<open>create\<close> has
  handed it out (\<open>#init\<close> has returned), a session is held only if a channel is bound, so
  \<open>disconnect\<close> never reads \<^verbatim>\<open>request\<close> of an absent channel: when the channel
  fulfils \<^verbatim>\<open>close_session\<close>, \<open>disconnect\<close> fulfils.  The dapp can call methods
  only on such a client.  This holds for every interleaving of the inputs.
\<close>

theorem ready_session_has_channel:
  assumes "s = run pv inputs (create sc storage cbs)" and "phase s = Ready"
  shows "(session s \<noteq> None \<longrightarrow> rpc s \<noteq> None) \<and> fst (disconnect (Inr ()) s) = Inr ()"
proof (cases "session s")
  case None
  then show ?thesis by (simp add: disconnect_def)
next
  case (Some sess)
  from ready_session_rpc [OF assms Some] obtain client where "rpc s = Some client" ..
  with Some show ?thesis by (simp add: disconnect_def)
qed

theorem ready_session_has_channel_witness:
  "session system_connected \<noteq> None \<and> rpc system_connected \<noteq> None
   \<and> fst (disconnect (Inr ()) system_connected) = Inr ()"
  using ready_session_has_channel [OF system_connected_def system_connected_fields(1)]
  by (simp add: system_connected_fields)

text \<open>
  Against C9 as worded for every reachable state: the wallet is found and an identifier is
  stored, so \<open>#init\<close> has subscribed to the pushes and waits for \<^verbatim>\<open>get_session\<close>; a
  \<^verbatim>\<open>session_updated\<close> push arrives.  Now a session is held and no channel is bound.
\<close>

theorem init_window_counterexample:
  "system_init_window =
     run ''1.2.0'' [Detected (Some wallet_1_2_0), Push_session_updated session_1]
       (create ''default'' stored_sid0 callbacks_1)
   \<and> phase system_init_window = Restoring (Channel 0)
   \<and> session system_init_window = Some session_1
   \<and> rpc system_init_window = None"
  by (simp add: system_init_window_fields) (simp add: system_init_window_def)


section \<open>The provider's account resolution\<close>

lemma endsWith_empty: "endsWith x []"
  by (simp add: endsWith_def)

lemma endsWith_iff: "endsWith x s = (\<exists>p. x = p @ s)"
proof
  assume "endsWith x s"
  then have "x = take (length x - length s) x @ s"
    by (metis append_take_drop_id endsWith_def)
  then show "\<exists>p. x = p @ s" ..
next
  assume "\<exists>p. x = p @ s"
  then show "endsWith x s" by (auto simp: endsWith_def)
qed

lemma find_first_match:
  assumes "\<forall>x \<in> set pre. \<not> P x" and "P a"
  shows "find P (pre @ a # post) = Some a"
  using assms by (induction pre) simp_all

lemma find_member:
  assumes "a \<in> set xs" and "P a"
  shows "\<exists>pre b post. xs = pre @ b # post \<and> P b \<and> (\<forall>x \<in> set pre. \<not> P x) \<and> find P xs = Some b"
proof -
  from assms have "\<exists>x \<in> set xs. P x" by blast
  from split_list_first_prop [OF this]
  obtain pre b post where s: "xs = pre @ b # post" "P b" "\<forall>x \<in> set pre. \<not> P x" by blast
  with find_first_match [of pre P b post] show ?thesis by blast
qed

lemma aztec_call_resolved:
  assumes "find (\<lambda>x. endsWith x (from' request)) (get_accounts w) = Some account"
    and "account \<noteq> []" and "rpc w = Some client" and "session w = Some sess"
  shows "aztec_call request response w =
     (case response of
        Inl e \<Rightarrow> Inl e
      | Inr [] \<Rightarrow> Inl (TypeError ''Cannot read properties of undefined (reading status)'')
      | Inr (Ok r # _) \<Rightarrow> Inr (encoded r)
      | Inr (Failed e # _) \<Rightarrow> Inl (Error (''Simulation failed: '' @ e))
      | Inr (Skipped # _) \<Rightarrow> Inl (Error ''Simulation failed: undefined''),
      w\<lparr>trace := trace w
         @ [(Rpc_request client
               (Execute (id' sess)
                  [Simulate_views account (map encoded_call_action (calls request))]),
             snapshot_of w)]\<rparr>)"
  using assms
  by (simp add: aztec_call_def execute_def emit_def Let_def
        split: sum.splits list.splits OperationResult.splits)

lemma aztec_sendTransaction_resolved:
  assumes "find (\<lambda>x. endsWith x (from' request)) (get_accounts w) = Some account"
    and "account \<noteq> []" and "rpc w = Some client" and "session w = Some sess"
  shows "aztec_sendTransaction request response w =
     (case response of
        Inl e \<Rightarrow> Inl e
      | Inr [] \<Rightarrow> Inl (TypeError ''Cannot read properties of undefined (reading status)'')
      | Inr (Ok r # _) \<Rightarrow> Inr r
      | Inr (Failed e # _) \<Rightarrow> Inl (Error (''Operation failed: '' @ e))
      | Inr (Skipped # _) \<Rightarrow> Inl (Error ''Operation failed: undefined''),
      w\<lparr>trace := trace w
         @ [(Rpc_request client
               (Execute (id' sess)
                  [Send_transaction account
                     (map add_private_authwit_action (authWitnesses request)
                      @ map (\<lambda>x. Action_encoded_call (encoded_call_action x)) (calls request))]),
             snapshot_of w)]\<rparr>)"
  using assms
  by (simp add: aztec_sendTransaction_def execute_def emit_def Let_def
        split: sum.splits list.splits OperationResult.splits)

lemma accounts_session:
  assumes "a \<in> set (get_accounts w)"
  shows "\<exists>sess. session w = Some sess"
  using assms by (cases "session w") (simp_all add: get_accounts_def)

lemma get_accounts_system_connected:
  "get_accounts system_connected = [''aztec:41337:0xabc'', ''aztec:31337:0xabc'']"
  by (simp add: get_accounts_def system_connected_fields session_1_def)

text \<open>
  C1, as the code has it.  On a client that \<open>create\<close> has handed out, whose account list
  has an entry ending with the request's \<open>from\<close> (where \<open>from\<close> is the empty string:
  and no entry that is the empty string), \<open>aztec_call\<close> sends one \<^verbatim>\<open>execute\<close> request with one \<^verbatim>\<open>simulate_views\<close>
  operation for the first such account, holding one encoded call per supplied call in
  order; and when the first result of the answer has status ok it returns the field
  \<^verbatim>\<open>encoded\<close> of that result, as the wallet reported it.
\<close>

theorem aztec_call_returns_encoded:
  assumes "s = run pv inputs (create sc storage cbs)" and "phase s = Ready"
    and "a \<in> set (get_accounts s)" and "endsWith a (from' request)"
    and "from' request \<noteq> [] \<or> [] \<notin> set (get_accounts s)"
  shows "\<exists>client sess account.
           rpc s = Some client \<and> session s = Some sess
           \<and> find (\<lambda>x. endsWith x (from' request)) (get_accounts s) = Some account
           \<and> aztec_call request (Inr (Ok r # rest)) s =
               (Inr (encoded r),
                s\<lparr>trace := trace s
                   @ [(Rpc_request client
                         (Execute (id' sess)
                            [Simulate_views account (map encoded_call_action (calls request))]),
                       snapshot_of s)]\<rparr>)"
proof -
  from find_member [of a "get_accounts s" "\<lambda>x. endsWith x (from' request)", OF assms(3,4)]
  obtain account where f: "find (\<lambda>x. endsWith x (from' request)) (get_accounts s) = Some account"
    and m: "account \<in> set (get_accounts s)" and e: "endsWith account (from' request)"
    by auto
  from m e assms(5) have ne: "account \<noteq> []" by (auto simp: endsWith_def)
  from accounts_session [OF m] obtain sess where sess: "session s = Some sess" ..
  from ready_session_rpc [OF assms(1,2) sess] obtain client where client: "rpc s = Some client" ..
  from aztec_call_resolved [OF f ne client sess, of "Inr (Ok r # rest)"] f client sess
  show ?thesis by simp
qed

theorem aztec_call_returns_encoded_witness:
  "aztec_call call_request_1 (Inr [Ok views_1]) system_connected =
     (Inr [[''0x05'']],
      system_connected\<lparr>trace := trace system_connected
        @ [(Rpc_request (Channel 0)
              (Execute ''sid1''
                 [Simulate_views ''aztec:41337:0xabc'' [Encoded_call ''0x11'' ''0x22'' [''0x33'']]]),
            snapshot_of system_connected)]\<rparr>)"
proof -
  have m: "''aztec:41337:0xabc'' \<in> set (get_accounts system_connected)"
    by (simp add: get_accounts_system_connected)
  have e: "endsWith ''aztec:41337:0xabc'' (from' call_request_1)"
    by (simp add: endsWith_def call_request_1_def)
  have n: "from' call_request_1 \<noteq> [] \<or> [] \<notin> set (get_accounts system_connected)"
    by (simp add: get_accounts_system_connected)
  from aztec_call_returns_encoded
         [OF system_connected_def system_connected_fields(1) m e n, of views_1 "[]"]
  show ?thesis
    by (simp add: system_connected_fields get_accounts_system_connected endsWith_def
          call_request_1_def views_1_def session_1_def)
qed

text \<open>
  Against C1 as worded: the request's \<open>from\<close> ends an account of the client and the one
  result has status ok, with the encoded values \<open>[[0x05]]\<close> and the decoded values
  \<open>[[5]]\<close>; \<open>aztec_call\<close> returns the encoded values, not the decoded ones.
\<close>

theorem aztec_call_counterexample:
  "endsWith ''aztec:41337:0xabc'' (from' call_request_1)
   \<and> ''aztec:41337:0xabc'' \<in> set (get_accounts system_connected)
   \<and> decoded views_1 = [[''5'']]
   \<and> fst (aztec_call call_request_1 (Inr [Ok views_1]) system_connected) = Inr [[''0x05'']]
   \<and> fst (aztec_call call_request_1 (Inr [Ok views_1]) system_connected) \<noteq> Inr (decoded views_1)"
proof -
  have f: "find (\<lambda>x. endsWith x (from' call_request_1)) (get_accounts system_connected)
             = Some ''aztec:41337:0xabc''"
    by (simp add: get_accounts_system_connected endsWith_def call_request_1_def)
  from aztec_call_resolved [OF f _ system_connected_fields(2,3), of "Inr [Ok views_1]"]
  have "fst (aztec_call call_request_1 (Inr [Ok views_1]) system_connected) = Inr [[''0x05'']]"
    by (simp add: views_1_def)
  then show ?thesis
    by (simp add: get_accounts_system_connected endsWith_def call_request_1_def views_1_def)
qed

text \<open>
  C10.  On a client that \<open>create\<close> has handed out, let \<open>account\<close> be an entry of the
  account list (account identifiers are not empty) such that either the request's \<open>from\<close>
  is the empty string and \<open>account\<close> is the first entry, or \<open>account\<close> ends with
  \<open>from\<close> and no earlier entry does.  Then \<open>aztec_call\<close> and \<open>aztec_sendTransaction\<close>
  both send their operation for \<open>account\<close>, and neither fails with "Unauthorized
  account" unless the channel itself rejects with that error.
\<close>

theorem empty_or_shared_suffix_resolves_first:
  assumes "s = run pv inputs (create sc storage cbs)" and "phase s = Ready"
    and "get_accounts s = pre @ account # post" and "account \<noteq> []"
    and "from' call = sender" and "from' send = sender"
    and "sender = [] \<and> pre = []
         \<or> endsWith account sender \<and> (\<forall>x \<in> set pre. \<not> endsWith x sender)"
  shows "\<exists>client sess.
           rpc s = Some client \<and> session s = Some sess
           \<and> snd (aztec_call call response s) =
               s\<lparr>trace := trace s
                  @ [(Rpc_request client
                        (Execute (id' sess)
                           [Simulate_views account (map encoded_call_action (calls call))]),
                      snapshot_of s)]\<rparr>
           \<and> snd (aztec_sendTransaction send response' s) =
               s\<lparr>trace := trace s
                  @ [(Rpc_request client
                        (Execute (id' sess)
                           [Send_transaction account
                              (map add_private_authwit_action (authWitnesses send)
                               @ map (\<lambda>x. Action_encoded_call (encoded_call_action x))
                                   (calls send))]),
                      snapshot_of s)]\<rparr>
           \<and> (fst (aztec_call call response s) = Inl (Error ''Unauthorized account'')
                \<longrightarrow> response = Inl (Error ''Unauthorized account''))
           \<and> (fst (aztec_sendTransaction send response' s) = Inl (Error ''Unauthorized account'')
                \<longrightarrow> response' = Inl (Error ''Unauthorized account''))"
proof -
  have first: "find (\<lambda>x. endsWith x sender) (get_accounts s) = Some account"
    using assms(7)
  proof
    assume "sender = [] \<and> pre = []"
    then show ?thesis by (simp add: assms(3) endsWith_empty)
  next
    assume "endsWith account sender \<and> (\<forall>x \<in> set pre. \<not> endsWith x sender)"
    then show ?thesis unfolding assms(3) by (simp add: find_first_match)
  qed
  have m: "account \<in> set (get_accounts s)" by (simp add: assms(3))
  from accounts_session [OF m] obtain sess where sess: "session s = Some sess" ..
  from ready_session_rpc [OF assms(1,2) sess] obtain client where client: "rpc s = Some client" ..
  from first assms(5) have fc: "find (\<lambda>x. endsWith x (from' call)) (get_accounts s) = Some account"
    by simp
  from first assms(6) have fs: "find (\<lambda>x. endsWith x (from' send)) (get_accounts s) = Some account"
    by simp
  note c = aztec_call_resolved [OF fc assms(4) client sess, of response]
  note t = aztec_sendTransaction_resolved [OF fs assms(4) client sess, of response']
  have c1: "fst (aztec_call call response s) = Inl (Error ''Unauthorized account'')
              \<longrightarrow> response = Inl (Error ''Unauthorized account'')"
    unfolding c by (simp split: sum.splits list.splits OperationResult.splits)
  have t1: "fst (aztec_sendTransaction send response' s) = Inl (Error ''Unauthorized account'')
              \<longrightarrow> response' = Inl (Error ''Unauthorized account'')"
    unfolding t by (simp split: sum.splits list.splits OperationResult.splits)
  from c have c2: "snd (aztec_call call response s) =
               s\<lparr>trace := trace s
                  @ [(Rpc_request client
                        (Execute (id' sess)
                           [Simulate_views account (map encoded_call_action (calls call))]),
                      snapshot_of s)]\<rparr>"
    by simp
  from t have t2: "snd (aztec_sendTransaction send response' s) =
               s\<lparr>trace := trace s
                  @ [(Rpc_request client
                        (Execute (id' sess)
                           [Send_transaction account
                              (map add_private_authwit_action (authWitnesses send)
                               @ map (\<lambda>x. Action_encoded_call (encoded_call_action x))
                                   (calls send))]),
                      snapshot_of s)]\<rparr>"
    by simp
  show ?thesis
    by (intro exI [of _ client] exI [of _ sess] conjI client sess c2 t2 c1 t1)
qed

theorem empty_or_shared_suffix_resolves_first_witness:
  "snd (aztec_call call_request_empty (Inr [Ok views_1]) system_connected) =
     system_connected\<lparr>trace := trace system_connected
       @ [(Rpc_request (Channel 0)
             (Execute ''sid1''
                [Simulate_views ''aztec:41337:0xabc'' [Encoded_call ''0x11'' ''0x22'' [''0x33'']]]),
           snapshot_of system_connected)]\<rparr>
   \<and> snd (aztec_sendTransaction send_request_empty (Inr [Ok ''0xhash'']) system_connected) =
     system_connected\<lparr>trace := trace system_connected
       @ [(Rpc_request (Channel 0)
             (Execute ''sid1''
                [Send_transaction ''aztec:41337:0xabc''
                   [Add_private_authwit ''0x44'' ''0x55'' ''0x66'' [],
                    Action_encoded_call (Encoded_call ''0x11'' ''0x22'' [''0x33''])]]),
           snapshot_of system_connected)]\<rparr>"
proof -
  have a: "get_accounts system_connected = [] @ ''aztec:41337:0xabc'' # [''aztec:31337:0xabc'']"
    by (simp add: get_accounts_system_connected)
  have n: "''aztec:41337:0xabc'' \<noteq> []" by simp
  have c: "from' call_request_empty = []" by (simp add: call_request_empty_def)
  have t: "from' send_request_empty = []" by (simp add: send_request_empty_def)
  have h: "[] = [] \<and> [] = []
           \<or> endsWith ''aztec:41337:0xabc'' [] \<and> (\<forall>x \<in> set []. \<not> endsWith x [])"
    by simp
  from empty_or_shared_suffix_resolves_first
         [OF system_connected_def system_connected_fields(1) a n c t h,
          of "Inr [Ok views_1]" "Inr [Ok ''0xhash'']"]
  show ?thesis
    by (simp add: system_connected_fields call_request_empty_def send_request_empty_def
          session_1_def)
qed

end
